theory Spec2Isabelle
  imports Complex_Main
begin

section \<open>Numbers of the source language\<close>

text \<open>
  The component is TypeScript: every \<^verbatim>\<open>number\<close> is a binary64 value and every
  arithmetic operator returns the exact result rounded to the nearest binary64
  value, ties to the even significand. The beat windows of the score encoder
  compare sums and products of such values with each other, so the rounding is
  part of the behaviour and is modelled: a finite \<^verbatim>\<open>number\<close> is the real it
  denotes, and \<open>jsMul\<close>, \<open>jsDiv\<close>, \<open>jsAdd\<close> round the exact result with
  \<open>toDouble\<close>. The exponent range is not bounded (no overflow to Infinity, no
  subnormals, no NaN): the values of the program (seconds, milliseconds, beat
  counts) lie far inside the normal range. Division by zero, which gives
  Infinity or NaN in the source, is outside the model; the tempo of the
  component is one of \<open>tempos\<close>, never zero.
\<close>

type_synonym number = real

text \<open>Nearest integer, a tie going to the even one.\<close>

definition roundEven :: "real \<Rightarrow> int" where
  "roundEven y =
     (let f = \<lfloor>y\<rfloor>; d = y - of_int f in
      if d < 1 / 2 then f
      else if 1 / 2 < d then f + 1
      else if even f then f else f + 1)"

text \<open>
  The unit in the last place of a positive \<open>a\<close>: the power of two \<open>u\<close> with
  \<open>2^52 * u \<le> a < 2^53 * u\<close>, found from \<open>1\<close> by doubling and then by dividing
  by \<open>2^32\<close>, \<open>2^8\<close>, \<open>4\<close> or \<open>2\<close>, the largest of them that does not overshoot.
\<close>

lemma floor_half_less: "(2::real) \<le> y \<Longrightarrow> \<lfloor>y / 2\<rfloor> < \<lfloor>y\<rfloor>"
proof -
  assume h: "2 \<le> y"
  have "y - 1 < of_int \<lfloor>y\<rfloor>" by linarith
  moreover have "y / 2 \<le> y - 1" using h by simp
  ultimately have "y / 2 < of_int \<lfloor>y\<rfloor>" by linarith
  then show ?thesis by (simp add: floor_less_iff)
qed

lemma ceiling_div_less:
  assumes "(1::real) < y" "2 \<le> c"
  shows "\<lceil>y / c\<rceil> < \<lceil>y\<rceil>"
proof -
  have a: "y \<le> of_int \<lceil>y\<rceil>" by (rule le_of_int_ceiling)
  have "1 < \<lceil>y\<rceil>" using assms(1) by (simp add: less_ceiling_iff)
  then have b: "(2::real) \<le> of_int \<lceil>y\<rceil>" by linarith
  have c: "y / c \<le> y / 2" using assms by (intro divide_left_mono) simp_all
  have "y / 2 \<le> of_int \<lceil>y\<rceil> - 1"
  proof (cases "y \<le> 2")
    case True then show ?thesis using b by linarith
  next
    case False then show ?thesis using a by linarith
  qed
  then have "y / c \<le> of_int \<lceil>y\<rceil> - 1" using c by linarith
  then show ?thesis by (simp add: ceiling_less_iff)
qed

function ulpUp :: "real \<Rightarrow> real \<Rightarrow> real" where
  "ulpUp a u = (if 0 < u \<and> 9007199254740992 * u \<le> a then ulpUp a (2 * u) else u)"
  by pat_completeness auto
termination
proof (relation "measure (\<lambda>(a, u). nat \<lfloor>a / u\<rfloor>)")
  show "wf (measure (\<lambda>(a :: real, u :: real). nat \<lfloor>a / u\<rfloor>))" by simp
next
  fix a u :: real
  assume h: "0 < u \<and> 9007199254740992 * u \<le> a"
  then have q: "9007199254740992 \<le> a / u" by (simp add: pos_le_divide_eq)
  then have q2: "2 \<le> a / u" by linarith
  have e: "a / (2 * u) = (a / u) / 2" by simp
  have "\<lfloor>(a / u) / 2\<rfloor> < \<lfloor>a / u\<rfloor>" using q2 by (rule floor_half_less)
  moreover have "0 < \<lfloor>a / u\<rfloor>" using q2 by (simp add: less_floor_iff)
  ultimately have "nat \<lfloor>(a / u) / 2\<rfloor> < nat \<lfloor>a / u\<rfloor>" by linarith
  then have "nat \<lfloor>a / (2 * u)\<rfloor> < nat \<lfloor>a / u\<rfloor>" by (simp only: e)
  then show "((a, 2 * u), (a, u)) \<in> measure (\<lambda>(a, u). nat \<lfloor>a / u\<rfloor>)"
    by (simp only: in_measure prod.case)
qed

function ulpDown :: "real \<Rightarrow> real \<Rightarrow> real" where
  "ulpDown a u =
     (if 0 < a \<and> 0 < u \<and> a < 4503599627370496 * u then
        if a * 2147483648 < 4503599627370496 * u then ulpDown a (u / 4294967296)
        else if a * 128 < 4503599627370496 * u then ulpDown a (u / 256)
        else if a * 2 < 4503599627370496 * u then ulpDown a (u / 4)
        else ulpDown a (u / 2)
      else u)"
  by pat_completeness auto
termination
proof (relation "measure (\<lambda>(a, u). nat \<lceil>4503599627370496 * u / a\<rceil>)")
  show "wf (measure (\<lambda>(a :: real, u :: real). nat \<lceil>4503599627370496 * u / a\<rceil>))" by simp
next
  fix a u :: real
  assume h: "0 < a \<and> 0 < u \<and> a < 4503599627370496 * u"
  then have q: "1 < 4503599627370496 * u / a" by (simp add: pos_less_divide_eq)
  have d: "nat \<lceil>4503599627370496 * (u / c) / a\<rceil> < nat \<lceil>4503599627370496 * u / a\<rceil>"
    if "2 \<le> c" for c :: real
  proof -
    have e: "4503599627370496 * (u / c) / a = (4503599627370496 * u / a) / c" by simp
    have "\<lceil>(4503599627370496 * u / a) / c\<rceil> < \<lceil>4503599627370496 * u / a\<rceil>"
      using q that by (rule ceiling_div_less)
    moreover have "0 < \<lceil>4503599627370496 * u / a\<rceil>" using q by (simp add: less_ceiling_iff)
    ultimately have
      "nat \<lceil>(4503599627370496 * u / a) / c\<rceil> < nat \<lceil>4503599627370496 * u / a\<rceil>"
      by linarith
    then show ?thesis by (simp only: e)
  qed
  show "((a, u / 4294967296), (a, u)) \<in> measure (\<lambda>(a, u). nat \<lceil>4503599627370496 * u / a\<rceil>)"
    using d[of 4294967296] by (simp only: in_measure prod.case)
  show "((a, u / 256), (a, u)) \<in> measure (\<lambda>(a, u). nat \<lceil>4503599627370496 * u / a\<rceil>)"
    using d[of 256] by (simp only: in_measure prod.case)
  show "((a, u / 4), (a, u)) \<in> measure (\<lambda>(a, u). nat \<lceil>4503599627370496 * u / a\<rceil>)"
    using d[of 4] by (simp only: in_measure prod.case)
  show "((a, u / 2), (a, u)) \<in> measure (\<lambda>(a, u). nat \<lceil>4503599627370496 * u / a\<rceil>)"
    using d[of 2] by (simp only: in_measure prod.case)
qed

declare ulpUp.simps [simp del] ulpDown.simps [simp del]

definition ulp :: "real \<Rightarrow> real" where
  "ulp a = ulpDown a (ulpUp a 1)"

text \<open>Rounding to 53 significant bits.\<close>

definition toDouble :: "real \<Rightarrow> number" where
  "toDouble x = (if x = 0 then 0 else let u = ulp \<bar>x\<bar> in of_int (roundEven (x / u)) * u)"

definition jsMul :: "number \<Rightarrow> number \<Rightarrow> number" where
  "jsMul a b = toDouble (a * b)"

definition jsDiv :: "number \<Rightarrow> number \<Rightarrow> number" where
  "jsDiv a b = toDouble (a / b)"

definition jsAdd :: "number \<Rightarrow> number \<Rightarrow> number" where
  "jsAdd a b = toDouble (a + b)"

text \<open>The facts that evaluate a rounding on numerals.\<close>

lemmas number_eval =
  jsMul_def jsDiv_def jsAdd_def toDouble_def ulp_def roundEven_def Let_def
  ulpUp.simps ulpDown.simps


section \<open>Data of the practice component\<close>

datatype Mode = C_MAJOR | G_MAJOR | A_MINOR

datatype Staff = treble | bass

text \<open>
  A difficulty is \<^verbatim>\<open>1 | 2 | 3\<close> in the source; the generator only compares it
  with \<open>2\<close> and \<open>3\<close>.
\<close>

type_synonym Difficulty = nat

text \<open>\<^verbatim>\<open>meters = ['4/4'] as const\<close>: the type of the selected meter has one member.\<close>

datatype Meter = Meter_4_4

text \<open>\<^verbatim>\<open>Number(selectedMeter.value.split('/')[0])\<close>.\<close>

fun beatsPerBarOf :: "Meter \<Rightarrow> nat" where
  "beatsPerBarOf Meter_4_4 = 4"

record NoteEvent =
  time :: number
  duration :: number
  midi :: int
  staff :: Staff
  isChord :: bool

definition tempos :: "number list" where
  "tempos = [60, 80, 100, 120, 140]"

definition phraseLengthBars :: nat where
  "phraseLengthBars = 4"

section \<open>Phrase generation\<close>

definition getScaleMidiRange :: "Mode \<Rightarrow> Staff \<Rightarrow> int \<times> int" where
  "getScaleMidiRange mode st = (if st = treble then (60, 84) else (36, 60))"

text \<open>
  \<^verbatim>\<open>Math.floor(Math.random() * (max - min + 1)) + min\<close>; the value returned by
  \<^verbatim>\<open>Math.random()\<close> is the argument \<open>r\<close>.
\<close>

definition randomInt :: "number \<Rightarrow> int \<Rightarrow> int \<Rightarrow> int" where
  "randomInt r mn mx = \<lfloor>jsMul r (of_int (mx - mn + 1))\<rfloor> + mn"

text \<open>
  What \<^verbatim>\<open>Math.random()\<close> can return: a binary64 value that is at least \<open>0\<close> and
  less than \<open>1\<close>.
\<close>

definition isRandomValue :: "number \<Rightarrow> bool" where
  "isRandomValue r \<longleftrightarrow> toDouble r = r \<and> 0 \<le> r \<and> r < 1"

text \<open>
  The scan of \<open>snapToTriad\<close>: \<open>closest\<close> and \<open>diff\<close> are the loop's two
  variables, \<open>diff = None\<close> standing for its initial \<^verbatim>\<open>Infinity\<close>.
\<close>

definition triads :: "int list" where
  "triads = [48, 53, 55]"

definition snapStep :: "int \<Rightarrow> int \<Rightarrow> int \<times> int option \<Rightarrow> int \<times> int option" where
  "snapStep m t cd =
     (let d = \<bar>t - m\<bar> in
      if (case snd cd of None \<Rightarrow> True | Some df \<Rightarrow> d < df) then (t, Some d) else cd)"

definition snapToTriad :: "int \<Rightarrow> Mode \<Rightarrow> int" where
  "snapToTriad m mode = fst (fold (snapStep m) triads (48, None))"

definition buildChord :: "int \<Rightarrow> Difficulty \<Rightarrow> int list" where
  "buildChord rootMidi diff =
     [rootMidi, rootMidi + 4, rootMidi + 7]
       @ (if 2 \<le> diff then [rootMidi - 12] else [])
       @ (if 3 \<le> diff then [rootMidi + 11] else [])"

text \<open>
  The loop of \<open>generatePhrase\<close>. The literal \<^verbatim>\<open>0.9\<close> is the binary64 value
  nearest to nine tenths. \<open>rand\<close> is the sequence of values that the
  successive calls of \<^verbatim>\<open>Math.random()\<close> return and \<open>k\<close> counts the calls
  made so far; the loop returns the events and the new count.
\<close>

function genLoop ::
  "Mode \<Rightarrow> nat \<Rightarrow> number \<Rightarrow> Difficulty \<Rightarrow> nat \<Rightarrow> (nat \<Rightarrow> number) \<Rightarrow>
   nat \<Rightarrow> nat \<Rightarrow> NoteEvent list \<Rightarrow> NoteEvent list \<times> nat" where
  "genLoop mode beatsPerBar secondsPerBeat diff totalBeats rand beatIndex k events =
     (if beatIndex < totalBeats then
        let beatInBar = beatIndex mod beatsPerBar;
            t = jsMul (of_nat beatIndex) secondsPerBeat;
            tr = getScaleMidiRange mode treble;
            trebleMidi = randomInt (rand k) (fst tr) (snd tr);
            events1 = events @
              [\<lparr>time = t, duration = jsMul secondsPerBeat (toDouble (9 / 10)), midi = trebleMidi,
                staff = treble, isChord = False\<rparr>]
        in
          if beatInBar = 0 then
            let br = getScaleMidiRange mode bass;
                rootMidi = snapToTriad (randomInt (rand (k + 1)) (fst br) (snd br)) mode;
                chordNotes = buildChord rootMidi diff;
                events2 = events1 @
                  map (\<lambda>m. \<lparr>time = t, duration = jsMul secondsPerBeat (of_nat beatsPerBar),
                             midi = m, staff = bass, isChord = True\<rparr>) chordNotes
            in genLoop mode beatsPerBar secondsPerBeat diff totalBeats rand
                 (beatIndex + 1) (k + 2) events2
          else
            genLoop mode beatsPerBar secondsPerBeat diff totalBeats rand
              (beatIndex + 1) (k + 1) events1
      else (events, k))"
  by pat_completeness auto
termination
  by (relation "measure (\<lambda>(mode, beatsPerBar, secondsPerBeat, diff, totalBeats, rand,
        beatIndex, k, events). totalBeats - beatIndex)") auto

declare genLoop.simps [simp del]

definition generateEvents ::
  "Mode \<Rightarrow> Meter \<Rightarrow> number \<Rightarrow> Difficulty \<Rightarrow> (nat \<Rightarrow> number) \<Rightarrow> nat \<Rightarrow> NoteEvent list \<times> nat" where
  "generateEvents mode meter tempo diff rand k =
     (let beatsPerBar = beatsPerBarOf meter;
          secondsPerBeat = jsDiv 60 tempo;
          totalBeats = beatsPerBar * phraseLengthBars
      in genLoop mode beatsPerBar secondsPerBeat diff totalBeats rand 0 k [])"


section \<open>The component and its environment\<close>

text \<open>
  The reactive variables and module variables of the component, followed by the
  parts of the browser it acts on: the table of pending \<^verbatim>\<open>setTimeout\<close> timers,
  the values \<^verbatim>\<open>Math.random()\<close> returns, the log of the calls of
  \<^verbatim>\<open>pianoSampler.triggerAttackRelease\<close> (pitch and duration), and the number of
  calls of \<open>startPlayback\<close> that are suspended at \<^verbatim>\<open>await ensureAudio()\<close>.
  \<open>pianoSampler\<close> tells whether the variable holds a sampler. \<^verbatim>\<open>Date.now()\<close> is
  the argument \<open>now\<close> of the operations, in milliseconds.
\<close>

datatype TimerAction = NoteTrigger NoteEvent | LoopTrigger

record Timer =
  timerId :: nat
  dueAt :: real
  callback :: TimerAction

record Component =
  selectedMode :: Mode
  selectedMeter :: Meter
  bpm :: number
  difficulty :: Difficulty
  noteEvents :: "NoteEvent list"
  phraseStart :: int
  isPlaying :: bool
  pianoSampler :: bool
  samplerLoaded :: bool
  activeMidiSet :: "int set"
  playbackTimers :: "nat list"
  progress :: number
  pendingTimers :: "Timer list"
  nextTimerId :: nat
  randomValues :: "nat \<Rightarrow> number"
  randomCalls :: nat
  triggered :: "(int \<times> number) list"
  startsAwaiting :: nat

definition phraseDuration :: "Component \<Rightarrow> number" where
  "phraseDuration s =
     (let beatsPerBar = beatsPerBarOf (selectedMeter s);
          secondsPerBeat = jsDiv 60 (bpm s)
      in jsMul (jsMul (of_nat beatsPerBar) secondsPerBeat) (of_nat phraseLengthBars))"

text \<open>
  \<open>generatePhrase\<close> replaces the phrase. Its last statement queues the drawing
  of the score, which reads the phrase and changes nothing modelled here.
\<close>

definition generatePhrase :: "Component \<Rightarrow> Component" where
  "generatePhrase s =
     (let r = generateEvents (selectedMode s) (selectedMeter s) (bpm s) (difficulty s)
                (randomValues s) (randomCalls s)
      in s\<lparr>noteEvents := fst r, randomCalls := snd r\<rparr>)"

text \<open>
  \<open>ensureAudio\<close> first awaits \<^verbatim>\<open>Tone.start()\<close>; once that has resolved it
  creates the sampler when there is none. The definition is the part after the
  await. In \<open>onMounted\<close> and \<open>playMidiOnce\<close> the await is taken to complete
  before the next event is handled.
\<close>

definition ensureAudio :: "Component \<Rightarrow> Component" where
  "ensureAudio s = s\<lparr>pianoSampler := True\<rparr>"

definition setTimeout :: "TimerAction \<Rightarrow> number \<Rightarrow> int \<Rightarrow> Component \<Rightarrow> nat \<times> Component" where
  "setTimeout cb delayMs now s =
     (nextTimerId s,
      s\<lparr>pendingTimers := pendingTimers s @
           [\<lparr>timerId = nextTimerId s, dueAt = of_int now + delayMs, callback = cb\<rparr>],
        nextTimerId := nextTimerId s + 1\<rparr>)"

definition clearTimeout :: "nat \<Rightarrow> Component \<Rightarrow> Component" where
  "clearTimeout tid s = s\<lparr>pendingTimers := filter (\<lambda>t. timerId t \<noteq> tid) (pendingTimers s)\<rparr>"

definition clearPlayback :: "Component \<Rightarrow> Component" where
  "clearPlayback s = (fold clearTimeout (playbackTimers s) s)\<lparr>playbackTimers := []\<rparr>"

definition scheduleNote :: "int \<Rightarrow> NoteEvent \<Rightarrow> Component \<Rightarrow> Component" where
  "scheduleNote now ev s =
     (let r = setTimeout (NoteTrigger ev) (jsMul (time ev) 1000) now s
      in (snd r)\<lparr>playbackTimers := playbackTimers (snd r) @ [fst r]\<rparr>)"

text \<open>
  \<open>startPlayback\<close> is asynchronous: everything it does comes after
  \<^verbatim>\<open>await ensureAudio()\<close>, and other events can be handled while it waits.
  The call only suspends (\<open>startPlaybackCall\<close>); when the audio context has
  started, the function resumes at the time \<open>now\<close> (\<open>startPlaybackResume\<close>):
  \<open>ensureAudio\<close> finishes and the statements after the await run, with no
  event in between. \<open>startPlayback now s\<close> is this resumed part run on \<open>s\<close>,
  which is also the whole function when nothing happens during its await.
\<close>

definition startPlayback :: "int \<Rightarrow> Component \<Rightarrow> Component" where
  "startPlayback now s =
     (let s1 = ensureAudio s in
      if \<not> pianoSampler s1 \<or> \<not> samplerLoaded s1 then s1
      else
        let s2 = clearPlayback s1;
            s3 = s2\<lparr>phraseStart := now, isPlaying := True\<rparr>;
            s4 = fold (scheduleNote now) (noteEvents s3) s3;
            totalMs = jsMul (phraseDuration s4) 1000;
            r = setTimeout LoopTrigger (jsAdd totalMs 50) now s4
        in (snd r)\<lparr>playbackTimers := playbackTimers (snd r) @ [fst r]\<rparr>)"

definition startPlaybackCall :: "Component \<Rightarrow> Component" where
  "startPlaybackCall s = s\<lparr>startsAwaiting := startsAwaiting s + 1\<rparr>"

definition startPlaybackResume :: "int \<Rightarrow> Component \<Rightarrow> Component" where
  "startPlaybackResume now s =
     (if startsAwaiting s = 0 then s
      else startPlayback now (s\<lparr>startsAwaiting := startsAwaiting s - 1\<rparr>))"

definition stopPlayback :: "Component \<Rightarrow> Component" where
  "stopPlayback s = clearPlayback (s\<lparr>isPlaying := False\<rparr>)"

text \<open>
  The two timer callbacks of \<open>startPlayback\<close>. The loop callback calls
  \<open>startPlayback\<close> without awaiting it.
\<close>

definition noteCallback :: "NoteEvent \<Rightarrow> Component \<Rightarrow> Component" where
  "noteCallback ev s =
     (if \<not> pianoSampler s \<or> \<not> samplerLoaded s \<or> \<not> isPlaying s then s
      else s\<lparr>triggered := triggered s @ [(midi ev, duration ev)]\<rparr>)"

definition loopCallback :: "Component \<Rightarrow> Component" where
  "loopCallback s = (if \<not> isPlaying s then s else startPlaybackCall (generatePhrase s))"

text \<open>
  The browser runs a pending timer once its delay has elapsed: the timer leaves
  the table and its callback runs. A timer that is not pending, or not yet due,
  does not run.
\<close>

definition fireTimer :: "nat \<Rightarrow> int \<Rightarrow> Component \<Rightarrow> Component" where
  "fireTimer tid now s =
     (case find (\<lambda>t. timerId t = tid) (pendingTimers s) of
        None \<Rightarrow> s
      | Some t \<Rightarrow>
          if of_int now < dueAt t then s
          else
            let s1 = s\<lparr>pendingTimers := filter (\<lambda>x. timerId x \<noteq> tid) (pendingTimers s)\<rparr>
            in (case callback t of
                  NoteTrigger ev \<Rightarrow> noteCallback ev s1
                | LoopTrigger \<Rightarrow> loopCallback s1))"

text \<open>
  A change of one of the four watched parameters: the control writes the new
  value and the watcher of \<^verbatim>\<open>[bpm, selectedMeter, selectedMode, difficulty]\<close> runs.
\<close>

datatype ParamChange = SetMode Mode | SetMeter Meter | SetBpm number | SetDifficulty Difficulty

fun setParam :: "ParamChange \<Rightarrow> Component \<Rightarrow> Component" where
  "setParam (SetMode m) s = s\<lparr>selectedMode := m\<rparr>"
| "setParam (SetMeter m) s = s\<lparr>selectedMeter := m\<rparr>"
| "setParam (SetBpm b) s = s\<lparr>bpm := b\<rparr>"
| "setParam (SetDifficulty d) s = s\<lparr>difficulty := d\<rparr>"

definition onParamChange :: "ParamChange \<Rightarrow> Component \<Rightarrow> Component" where
  "onParamChange c s = generatePhrase (setParam c s)"

text \<open>
  The load callback of the sampler belongs to the sampler: without a sampler it
  cannot run.
\<close>

definition onSamplerLoad :: "Component \<Rightarrow> Component" where
  "onSamplerLoad s = (if pianoSampler s then s\<lparr>samplerLoaded := True\<rparr> else s)"

text \<open>A key of the on-screen keyboard: one note, whatever the playback state.\<close>

definition playMidiOnce :: "int \<Rightarrow> Component \<Rightarrow> Component" where
  "playMidiOnce m s =
     (let s1 = ensureAudio s in
      if \<not> pianoSampler s1 \<or> \<not> samplerLoaded s1 then s1
      else s1\<lparr>triggered := triggered s1 @ [(m, toDouble (6 / 10))]\<rparr>)"

section \<open>Active notes and progress\<close>

text \<open>
  One tick of each poll; that the tick asks for the next animation frame is not
  modelled.
\<close>

definition elapsedSeconds :: "int \<Rightarrow> Component \<Rightarrow> number" where
  "elapsedSeconds now s = jsDiv (of_int (now - phraseStart s)) 1000"

definition updateActiveNotes :: "int \<Rightarrow> Component \<Rightarrow> Component" where
  "updateActiveNotes now s =
     (if \<not> isPlaying s then s\<lparr>activeMidiSet := {}\<rparr>
      else
        let elapsed = elapsedSeconds now s
        in s\<lparr>activeMidiSet :=
               fold (\<lambda>ev st. if time ev \<le> elapsed \<and> elapsed \<le> jsAdd (time ev) (duration ev)
                              then insert (midi ev) st else st)
                 (noteEvents s) {}\<rparr>)"

definition updateProgress :: "int \<Rightarrow> Component \<Rightarrow> Component" where
  "updateProgress now s =
     (if \<not> isPlaying s then s\<lparr>progress := 0\<rparr>
      else
        let elapsed = elapsedSeconds now s;
            p = jsDiv elapsed (phraseDuration s)
        in s\<lparr>progress := (if 1 < p then 1 else p)\<rparr>)"


section \<open>The life of the component\<close>

text \<open>The initial values of the variables, for a given source of random values.\<close>

definition initialComponent :: "(nat \<Rightarrow> number) \<Rightarrow> Component" where
  "initialComponent rand =
     \<lparr>selectedMode = C_MAJOR, selectedMeter = Meter_4_4, bpm = 100, difficulty = 1,
      noteEvents = [], phraseStart = 0, isPlaying = False, pianoSampler = False,
      samplerLoaded = False, activeMidiSet = {}, playbackTimers = [], progress = 0,
      pendingTimers = [], nextTimerId = 1, randomValues = rand, randomCalls = 0,
      triggered = [], startsAwaiting = 0\<rparr>"

definition onMounted :: "int \<Rightarrow> Component \<Rightarrow> Component" where
  "onMounted now s = updateActiveNotes now (generatePhrase (ensureAudio s))"

text \<open>
  What can happen to the mounted component: the start button, the audio
  context having started (one suspended \<open>startPlayback\<close> resumes), a call of
  \<open>stopPlayback\<close> (the stop button, or \<open>onBeforeUnmount\<close>), a timer of the
  browser, a parameter control, the end of the sample download, a key of the
  keyboard and the two polls.
\<close>

datatype Event =
    ClickStart
  | AudioReady int
  | ClickStop
  | TimerFires nat int
  | ParamChanged ParamChange
  | SamplerLoads
  | KeyDown int
  | ActiveFrame int
  | ProgressFrame int

fun handle :: "Event \<Rightarrow> Component \<Rightarrow> Component" where
  "handle ClickStart s = startPlaybackCall s"
| "handle (AudioReady now) s = startPlaybackResume now s"
| "handle ClickStop s = stopPlayback s"
| "handle (TimerFires tid now) s = fireTimer tid now s"
| "handle (ParamChanged c) s = onParamChange c s"
| "handle SamplerLoads s = onSamplerLoad s"
| "handle (KeyDown m) s = playMidiOnce m s"
| "handle (ActiveFrame now) s = updateActiveNotes now s"
| "handle (ProgressFrame now) s = updateProgress now s"

definition run :: "Event list \<Rightarrow> Component \<Rightarrow> Component" where
  "run evs s = fold handle evs s"

text \<open>The component after it was mounted at \<open>now\<close> and lived through \<open>evs\<close>.\<close>

definition reached :: "(nat \<Rightarrow> number) \<Rightarrow> int \<Rightarrow> Event list \<Rightarrow> Component" where
  "reached rand now evs = run evs (onMounted now (initialComponent rand))"

text \<open>
  The events the browser delivers by itself once the user has stopped: timers
  and the start of the audio context.
\<close>

fun deferred :: "Event \<Rightarrow> bool" where
  "deferred (TimerFires tid now) = True"
| "deferred (AudioReady now) = True"
| "deferred e = False"

section \<open>Score encoding\<close>

text \<open>
  The encoder writes one \<^verbatim>\<open><note>\<close> element per slot into a fixed template of
  four measures. An element is kept as a value with the fields its template
  literal fixes or interpolates: the pitch (none for \<^verbatim>\<open><rest/>\<close>), the duration
  in divisions, the voice, the type, the beam and the staff. The surrounding
  markup of the template is constant and is not modelled.
\<close>

datatype EncodeError = TypeError

record XmlPitch =
  step :: char
  alter :: nat
  octave :: int

datatype Beam = BeamBegin | BeamContinue | BeamEnd

record NoteXml =
  pitch :: "XmlPitch option"
  xmlDuration :: number
  voice :: nat
  noteType :: string
  beam :: "Beam option"
  xmlStaff :: nat

record Measure =
  trebleSlots :: "NoteXml list"
  bassGroup :: "NoteXml list"

record ScoreDocument =
  tempoMark :: number
  measures :: "Measure list"

definition names :: "string list" where
  "names = [''C'', ''C#'', ''D'', ''D#'', ''E'', ''F'', ''F#'', ''G'', ''G#'', ''A'', ''A#'', ''B'']"

text \<open>The remainder operator \<^verbatim>\<open>%\<close> on integers: the sign follows the dividend.\<close>

definition jsRem :: "int \<Rightarrow> int \<Rightarrow> int" where
  "jsRem a b = (if 0 \<le> a then a mod \<bar>b\<bar> else - ((- a) mod \<bar>b\<bar>))"

text \<open>
  For a negative remainder \<^verbatim>\<open>names[pc]\<close> is undefined and \<^verbatim>\<open>name[0]\<close> throws a
  TypeError.
\<close>

definition xmlPitchOf :: "int \<Rightarrow> XmlPitch" where
  "xmlPitchOf m =
     (let pc = jsRem m 12;
          oct = \<lfloor>jsDiv (of_int m) 12\<rfloor> - 1;
          name = names ! nat pc
      in \<lparr>step = hd name, alter = (if CHR ''#'' \<in> set name then 1 else 0), octave = oct\<rparr>)"

definition midiToXmlPitch :: "int \<Rightarrow> EncodeError + XmlPitch" where
  "midiToXmlPitch m = (if jsRem m 12 < 0 then Inl TypeError else Inr (xmlPitchOf m))"

definition divisions :: number where
  "divisions = 4"

definition beatsPerBarXml :: int where
  "beatsPerBarXml = 4"

text \<open>A loop whose body may throw: the first exception ends it.\<close>

fun mapE :: "('a \<Rightarrow> 'e + 'b) \<Rightarrow> 'a list \<Rightarrow> 'e + 'b list" where
  "mapE f [] = Inr []"
| "mapE f (x # xs) =
     (case f x of
        Inl e \<Rightarrow> Inl e
      | Inr y \<Rightarrow> (case mapE f xs of Inl e \<Rightarrow> Inl e | Inr ys \<Rightarrow> Inr (y # ys)))"

definition measureStartOf :: "number \<Rightarrow> int \<Rightarrow> number" where
  "measureStartOf secPerBeat bar = jsMul (of_int ((bar - 1) * beatsPerBarXml)) secPerBeat"

definition beatStartOf :: "number \<Rightarrow> int \<Rightarrow> int \<Rightarrow> number" where
  "beatStartOf secPerBeat bar beat =
     jsAdd (measureStartOf secPerBeat bar) (jsMul (of_int (beat - 1)) secPerBeat)"

definition inBeatWindow :: "number \<Rightarrow> int \<Rightarrow> int \<Rightarrow> NoteEvent \<Rightarrow> bool" where
  "inBeatWindow secPerBeat bar beat e =
     (let bStart = beatStartOf secPerBeat bar beat;
          bEnd = jsAdd bStart secPerBeat
      in bStart \<le> time e \<and> time e < bEnd)"

definition trebleRest :: NoteXml where
  "trebleRest =
     \<lparr>pitch = None, xmlDuration = divisions, voice = 1, noteType = ''quarter'',
      beam = None, xmlStaff = 1\<rparr>"

definition trebleNoteXml :: "XmlPitch \<Rightarrow> NoteXml" where
  "trebleNoteXml p =
     \<lparr>pitch = Some p, xmlDuration = divisions, voice = 1, noteType = ''quarter'',
      beam = None, xmlStaff = 1\<rparr>"

definition buildTrebleBeatNote ::
  "number \<Rightarrow> NoteEvent list \<Rightarrow> int \<Rightarrow> int \<Rightarrow> EncodeError + NoteXml" where
  "buildTrebleBeatNote secPerBeat trebleEvents bar beat =
     (case find (inBeatWindow secPerBeat bar beat) trebleEvents of
        None \<Rightarrow> Inr trebleRest
      | Some ev \<Rightarrow>
          (case midiToXmlPitch (midi ev) of
             Inl e \<Rightarrow> Inl e
           | Inr p \<Rightarrow> Inr (trebleNoteXml p)))"

definition bassRest :: NoteXml where
  "bassRest =
     \<lparr>pitch = None, xmlDuration = jsDiv divisions 2, voice = 1, noteType = ''eighth'',
      beam = None, xmlStaff = 2\<rparr>"

text \<open>\<^verbatim>\<open>if (pitches[i])\<close>: the entry exists and is not zero.\<close>

definition truthyAt :: "int list \<Rightarrow> nat \<Rightarrow> bool" where
  "truthyAt pitches i \<longleftrightarrow> i < length pitches \<and> pitches ! i \<noteq> 0"

definition bassPattern :: "int list \<Rightarrow> int list" where
  "bassPattern pitches =
     [pitches ! 0]
       @ (if truthyAt pitches 1 then [pitches ! 1] else [])
       @ (if truthyAt pitches 2 then [pitches ! 2] else [])
       @ [pitches ! 0]"

definition beamTag :: "nat \<Rightarrow> nat \<Rightarrow> Beam" where
  "beamTag n idx =
     (if idx = 0 then BeamBegin else if idx = n - 1 then BeamEnd else BeamContinue)"

definition bassNoteXml :: "XmlPitch \<Rightarrow> Beam \<Rightarrow> NoteXml" where
  "bassNoteXml p b =
     \<lparr>pitch = Some p, xmlDuration = jsDiv divisions 2, voice = 1, noteType = ''eighth'',
      beam = Some b, xmlStaff = 2\<rparr>"

definition bassNote :: "nat \<Rightarrow> nat \<times> int \<Rightarrow> EncodeError + NoteXml" where
  "bassNote n im =
     (case midiToXmlPitch (snd im) of
        Inl e \<Rightarrow> Inl e
      | Inr p \<Rightarrow> Inr (bassNoteXml p (beamTag n (fst im))))"

definition buildBassGroup ::
  "number \<Rightarrow> NoteEvent list \<Rightarrow> int \<Rightarrow> EncodeError + NoteXml list" where
  "buildBassGroup secPerBeat bassChordStarts bar =
     (let measureStart = measureStartOf secPerBeat bar;
          chordEvents = filter (\<lambda>e. time e = measureStart) bassChordStarts
      in if chordEvents = [] then Inr (replicate 4 bassRest)
         else
           let pitches = sort (map midi chordEvents);
               pattern = bassPattern pitches
           in mapE (bassNote (length pattern)) (enumerate 0 pattern))"

definition buildMeasure ::
  "number \<Rightarrow> NoteEvent list \<Rightarrow> NoteEvent list \<Rightarrow> int \<Rightarrow> EncodeError + Measure" where
  "buildMeasure secPerBeat trebleEvents bassChordStarts bar =
     (case mapE (buildTrebleBeatNote secPerBeat trebleEvents bar) [1, 2, 3, 4] of
        Inl e \<Rightarrow> Inl e
      | Inr ts \<Rightarrow>
          (case buildBassGroup secPerBeat bassChordStarts bar of
             Inl e \<Rightarrow> Inl e
           | Inr bg \<Rightarrow> Inr \<lparr>trebleSlots = ts, bassGroup = bg\<rparr>))"

text \<open>
  \<open>buildMusicXmlFromPhrase\<close> reads the phrase and the tempo of the component.
  Its two sorted copies of the phrase come first. The comparator of both sorts
  is the difference of the times; the sort of the language is stable.
\<close>

definition trebleEventsOf :: "NoteEvent list \<Rightarrow> NoteEvent list" where
  "trebleEventsOf events = sort_key time (filter (\<lambda>n. staff n = treble) events)"

definition bassChordStartsOf :: "NoteEvent list \<Rightarrow> NoteEvent list" where
  "bassChordStartsOf events = sort_key time (filter (\<lambda>n. staff n = bass) events)"

definition buildMusicXmlFromPhrase :: "NoteEvent list \<Rightarrow> number \<Rightarrow> EncodeError + ScoreDocument" where
  "buildMusicXmlFromPhrase events tempo =
     (let secPerBeat = jsDiv 60 tempo;
          trebleEvents = trebleEventsOf events;
          bassChordStarts = bassChordStartsOf events
      in case mapE (buildMeasure secPerBeat trebleEvents bassChordStarts) [1, 2, 3, 4] of
           Inl e \<Rightarrow> Inl e
         | Inr ms \<Rightarrow> Inr \<lparr>tempoMark = tempo, measures = ms\<rparr>)"

section \<open>The generated phrase in closed form\<close>

text \<open>
  For the meter 4/4 the loop of \<open>generatePhrase\<close> runs sixteen times. \<open>barAt\<close>
  lists the events it appends during one bar: the treble event of the first
  beat, the chord, the treble events of the other three beats. A bar makes five
  calls of \<^verbatim>\<open>Math.random()\<close>. These definitions only name the parts of what the
  loop returns; \<open>generateEvents_closed\<close> proves that they are what it
  returns.
\<close>

definition beatTime :: "number \<Rightarrow> nat \<Rightarrow> number" where
  "beatTime spb b = jsMul (of_nat b) spb"

definition trebleAt :: "number \<Rightarrow> (nat \<Rightarrow> number) \<Rightarrow> nat \<Rightarrow> nat \<Rightarrow> NoteEvent" where
  "trebleAt spb rand k b =
     \<lparr>time = beatTime spb b, duration = jsMul spb (toDouble (9 / 10)),
      midi = randomInt (rand (k + b + (b + 3) div 4)) 60 84, staff = treble, isChord = False\<rparr>"

definition chordRoot :: "Mode \<Rightarrow> (nat \<Rightarrow> number) \<Rightarrow> nat \<Rightarrow> nat \<Rightarrow> int" where
  "chordRoot mode rand k bar = snapToTriad (randomInt (rand (k + 5 * bar + 1)) 36 60) mode"

definition chordAt :: "number \<Rightarrow> nat \<Rightarrow> int \<Rightarrow> NoteEvent" where
  "chordAt spb bar =
     (\<lambda>m. \<lparr>time = beatTime spb (4 * bar), duration = jsMul spb 4, midi = m,
           staff = bass, isChord = True\<rparr>)"

definition barAt ::
  "Mode \<Rightarrow> number \<Rightarrow> Difficulty \<Rightarrow> (nat \<Rightarrow> number) \<Rightarrow> nat \<Rightarrow> nat \<Rightarrow> NoteEvent list" where
  "barAt mode spb diff rand k bar =
     trebleAt spb rand k (4 * bar)
       # map (chordAt spb bar) (buildChord (chordRoot mode rand k bar) diff)
       @ map (trebleAt spb rand k) [4 * bar + 1, 4 * bar + 2, 4 * bar + 3]"

text \<open>
  The measure that the encoder builds for bar \<open>bar\<close> (counted from \<open>0\<close>) of a
  generated phrase, as \<open>document_closed\<close> proves.
\<close>

definition measureOf ::
  "Mode \<Rightarrow> number \<Rightarrow> Difficulty \<Rightarrow> (nat \<Rightarrow> number) \<Rightarrow> nat \<Rightarrow> nat \<Rightarrow> Measure" where
  "measureOf mode spb diff rand k bar =
     (let ps = sort (buildChord (chordRoot mode rand k bar) diff)
      in \<lparr>trebleSlots =
            map (\<lambda>beat. trebleNoteXml (xmlPitchOf (midi (trebleAt spb rand k (4 * bar + beat)))))
              [0, 1, 2, 3],
          bassGroup =
            [bassNoteXml (xmlPitchOf (ps ! 0)) BeamBegin,
             bassNoteXml (xmlPitchOf (ps ! 1)) BeamContinue,
             bassNoteXml (xmlPitchOf (ps ! 2)) BeamContinue,
             bassNoteXml (xmlPitchOf (ps ! 0)) BeamEnd]\<rparr>)"

text \<open>
  The beat window of the encoder for the slot of beat \<open>b\<close> (counted from
  \<open>0\<close> over the phrase) starts at \<open>slotStart\<close>. \<open>slotOk\<close> compares the
  rounded times of the generator with the rounded window of the encoder: the
  event of beat \<open>b\<close> lies in the window of its slot and the event of the beat
  before lies before it. It is checked by evaluation for each tempo.
\<close>

definition slotStart :: "number \<Rightarrow> nat \<Rightarrow> number" where
  "slotStart spb b = beatStartOf spb (int (b div 4) + 1) (int (b mod 4) + 1)"

definition slotOk :: "number \<Rightarrow> nat \<Rightarrow> bool" where
  "slotOk spb b =
     (let s = slotStart spb b; t = beatTime spb b; e = jsAdd s spb
      in s \<le> t \<and> t < e \<and> (b = 0 \<or> beatTime spb (b - 1) < s))"

definition gridOk :: "number \<Rightarrow> bool" where
  "gridOk spb = list_all (slotOk spb) [0, 1, 2, 3, 4, 5, 6, 7, 8, 9, 10, 11, 12, 13, 14, 15]"

section \<open>Consistency of the timer bookkeeping\<close>

text \<open>
  Every pending timer of the browser is listed in \<open>playbackTimers\<close>; an idle
  component lists none; samples are loaded only into an existing sampler.
\<close>

definition tracked :: "Component \<Rightarrow> bool" where
  "tracked s \<longleftrightarrow> timerId ` set (pendingTimers s) \<subseteq> set (playbackTimers s)"

definition consistent :: "Component \<Rightarrow> bool" where
  "consistent s \<longleftrightarrow>
     tracked s \<and> (\<not> isPlaying s \<longrightarrow> playbackTimers s = []) \<and> (samplerLoaded s \<longrightarrow> pianoSampler s)"

section \<open>Example inputs\<close>

text \<open>A source of random values that always returns \<open>0\<close>.\<close>

definition zeroRandom :: "nat \<Rightarrow> number" where
  "zeroRandom i = 0"

text \<open>
  A playing component whose phrase started at \<open>1000\<close> ms; a tick at \<open>0\<close> ms sees
  the clock one second before the start.
\<close>

definition lateStart :: Component where
  "lateStart = (initialComponent zeroRandom)\<lparr>isPlaying := True, phraseStart := 1000\<rparr>"

text \<open>
  The phrase generated for C major, 4/4, tempo \<open>100\<close> and difficulty \<open>1\<close> when
  every random value is \<open>0\<close>, and the empty phrase.
\<close>

definition examplePhrase :: "NoteEvent list" where
  "examplePhrase = fst (generateEvents C_MAJOR Meter_4_4 100 1 zeroRandom 0)"

definition emptyPhrase :: "NoteEvent list" where
  "emptyPhrase = []"

text \<open>The document of the empty phrase at tempo \<open>100\<close>: rests only.\<close>

definition restDocument :: ScoreDocument where
  "restDocument =
     \<lparr>tempoMark = 100,
      measures = replicate 4 \<lparr>trebleSlots = replicate 4 trebleRest,
                               bassGroup = replicate 4 bassRest\<rparr>\<rparr>"

text \<open>
  The component mounted at time \<open>0\<close>, its samples loaded, playback started at
  time \<open>0\<close>.
\<close>

definition playingExample :: Component where
  "playingExample = reached zeroRandom 0 [SamplerLoads, ClickStart, AudioReady 0]"

text \<open>
  The same component after its loop timer (the timer with id \<open>29\<close>, due at
  \<open>9650\<close> ms) has fired at \<open>9700\<close> ms: the callback has generated the next
  phrase and called \<open>startPlayback\<close>, which is suspended at its await. The
  component still counts as playing, so the stop button is enabled.
\<close>

definition restarting :: Component where
  "restarting = reached zeroRandom 0 [SamplerLoads, ClickStart, AudioReady 0, TimerFires 29 9700]"

text \<open>
  A phrase with one chord at time \<open>0\<close> and nothing else, and the document the
  encoder builds for it at tempo \<open>100\<close>: the chord in the first measure, rests
  everywhere else.
\<close>

definition oneChordPhrase :: "NoteEvent list" where
  "oneChordPhrase =
     [\<lparr>time = 0, duration = 2, midi = 55, staff = bass, isChord = True\<rparr>,
      \<lparr>time = 0, duration = 2, midi = 48, staff = bass, isChord = True\<rparr>,
      \<lparr>time = 0, duration = 2, midi = 52, staff = bass, isChord = True\<rparr>]"

definition oneChordDocument :: ScoreDocument where
  "oneChordDocument =
     \<lparr>tempoMark = 100,
      measures =
        \<lparr>trebleSlots = replicate 4 trebleRest,
          bassGroup =
            [bassNoteXml (xmlPitchOf 48) BeamBegin, bassNoteXml (xmlPitchOf 52) BeamContinue,
             bassNoteXml (xmlPitchOf 55) BeamContinue, bassNoteXml (xmlPitchOf 48) BeamEnd]\<rparr>
        # replicate 3 \<lparr>trebleSlots = replicate 4 trebleRest, bassGroup = replicate 4 bassRest\<rparr>\<rparr>"

section \<open>Properties of the rounding\<close>

lemma ulpUp_pos: "0 < u \<Longrightarrow> 0 < ulpUp a u"
  by (induction a u rule: ulpUp.induct) (subst ulpUp.simps, simp)

lemma ulpUp_upper: "0 < u \<Longrightarrow> a < 9007199254740992 * ulpUp a u"
  by (induction a u rule: ulpUp.induct) (subst ulpUp.simps, simp)

lemma ulpUp_lower: "0 < u \<Longrightarrow> ulpUp a u = u \<or> 4503599627370496 * ulpUp a u \<le> a"
proof (induction a u rule: ulpUp.induct)
  case (1 a u)
  show ?case
  proof (cases "9007199254740992 * u \<le> a")
    case True
    then have st: "ulpUp a u = ulpUp a (2 * u)" using 1(2) by (subst ulpUp.simps) simp
    from 1(1)[OF conjI[OF 1(2) True]] 1(2)
    have "ulpUp a (2 * u) = 2 * u \<or> 4503599627370496 * ulpUp a (2 * u) \<le> a" by simp
    then show ?thesis using True st by auto
  next
    case False
    then show ?thesis by (subst ulpUp.simps) simp
  qed
qed

lemma ulpUp_pow: "0 < u \<Longrightarrow> \<exists>n::nat. ulpUp a u = u * 2 ^ n"
proof (induction a u rule: ulpUp.induct)
  case (1 a u)
  show ?case
  proof (cases "9007199254740992 * u \<le> a")
    case True
    then have st: "ulpUp a u = ulpUp a (2 * u)" using 1(2) by (subst ulpUp.simps) simp
    from 1(1)[OF conjI[OF 1(2) True]] 1(2)
    obtain n :: nat where "ulpUp a (2 * u) = 2 * u * 2 ^ n" by auto
    then have "ulpUp a u = u * 2 ^ Suc n" using st by simp
    then show ?thesis by blast
  next
    case False
    then have "ulpUp a u = u * 2 ^ 0" by (subst ulpUp.simps) simp
    then show ?thesis by blast
  qed
qed

lemma ulpDown_pos: "0 < u \<Longrightarrow> 0 < ulpDown a u"
  by (induction a u rule: ulpDown.induct) (subst ulpDown.simps, simp)

lemma ulpDown_lower: "0 < a \<Longrightarrow> 0 < u \<Longrightarrow> 4503599627370496 * ulpDown a u \<le> a"
  by (induction a u rule: ulpDown.induct) (subst ulpDown.simps, simp)

lemma ulpDown_upper:
  "0 < u \<Longrightarrow> a < 9007199254740992 * u \<Longrightarrow> a < 9007199254740992 * ulpDown a u"
  by (induction a u rule: ulpDown.induct) (subst ulpDown.simps, simp)

lemma ulpDown_pow: "0 < u \<Longrightarrow> \<exists>n::nat. u = ulpDown a u * 2 ^ n"
proof (induction a u rule: ulpDown.induct)
  case (1 a u)
  have step: "\<exists>n::nat. u = ulpDown a (u / 2 ^ j) * 2 ^ n"
    if "\<exists>n::nat. u / 2 ^ j = ulpDown a (u / 2 ^ j) * 2 ^ n" for j :: nat
  proof -
    from that obtain n :: nat where "u / 2 ^ j = ulpDown a (u / 2 ^ j) * 2 ^ n" by blast
    then have "u = ulpDown a (u / 2 ^ j) * 2 ^ (n + j)" by (simp add: power_add field_simps)
    then show ?thesis by blast
  qed
  show ?case
  proof (cases "0 < a \<and> a < 4503599627370496 * u")
    case False
    then have "u = ulpDown a u * 2 ^ 0" by (subst ulpDown.simps) auto
    then show ?thesis by blast
  next
    case True
    then have c: "0 < a \<and> 0 < u \<and> a < 4503599627370496 * u" using 1(5) by simp
    consider (j32) "a * 2147483648 < 4503599627370496 * u"
      | (j8) "\<not> a * 2147483648 < 4503599627370496 * u" "a * 128 < 4503599627370496 * u"
      | (j2) "\<not> a * 2147483648 < 4503599627370496 * u" "\<not> a * 128 < 4503599627370496 * u"
             "a * 2 < 4503599627370496 * u"
      | (j1) "\<not> a * 2147483648 < 4503599627370496 * u" "\<not> a * 128 < 4503599627370496 * u"
             "\<not> a * 2 < 4503599627370496 * u"
      by blast
    then show ?thesis
    proof cases
      case j32
      have st: "ulpDown a u = ulpDown a (u / 2 ^ 32)" using c j32 by (subst ulpDown.simps) simp
      have "\<exists>n::nat. u / 2 ^ 32 = ulpDown a (u / 2 ^ 32) * 2 ^ n"
        using 1(1)[OF c j32] 1(5) by simp
      then show ?thesis unfolding st by (rule step)
    next
      case j8
      have st: "ulpDown a u = ulpDown a (u / 2 ^ 8)" using c j8 by (subst ulpDown.simps) simp
      have "\<exists>n::nat. u / 2 ^ 8 = ulpDown a (u / 2 ^ 8) * 2 ^ n"
        using 1(2)[OF c j8] 1(5) by simp
      then show ?thesis unfolding st by (rule step)
    next
      case j2
      have st: "ulpDown a u = ulpDown a (u / 2 ^ 2)" using c j2 by (subst ulpDown.simps) simp
      have "\<exists>n::nat. u / 2 ^ 2 = ulpDown a (u / 2 ^ 2) * 2 ^ n"
        using 1(3)[OF c j2] 1(5) by simp
      then show ?thesis unfolding st by (rule step)
    next
      case j1
      have st: "ulpDown a u = ulpDown a (u / 2 ^ 1)" using c j1 by (subst ulpDown.simps) simp
      have "\<exists>n::nat. u / 2 ^ 1 = ulpDown a (u / 2 ^ 1) * 2 ^ n"
        using 1(4)[OF c j1] 1(5) by simp
      then show ?thesis unfolding st by (rule step)
    qed
  qed
qed

lemma ulp_pos: "0 < ulp a"
  unfolding ulp_def by (rule ulpDown_pos, rule ulpUp_pos) simp

lemma ulp_lower: "0 < a \<Longrightarrow> 4503599627370496 * ulp a \<le> a"
  unfolding ulp_def by (rule ulpDown_lower, assumption, rule ulpUp_pos) simp

lemma ulp_upper: "a < 9007199254740992 * ulp a"
  unfolding ulp_def by (rule ulpDown_upper, rule ulpUp_pos, simp, rule ulpUp_upper) simp

lemma ulp_pow: "\<exists>k::int. ulp a = 2 powi k"
proof -
  obtain n :: nat where n: "ulpUp a 1 = 1 * 2 ^ n" using ulpUp_pow[of 1 a] by auto
  have "0 < ulpUp a 1" by (rule ulpUp_pos) simp
  then obtain m :: nat where m: "ulpUp a 1 = ulpDown a (ulpUp a 1) * 2 ^ m"
    using ulpDown_pow by blast
  have "ulp a = 2 ^ n / 2 ^ m" using n m unfolding ulp_def
    by (simp add: field_simps)
  also have "\<dots> = 2 powi (int n - int m)"
    by (simp add: power_int_diff)
  finally show ?thesis by blast
qed

lemma ulp_le:
  assumes "0 < x" "x \<le> y"
  shows "ulp x \<le> ulp y"
proof -
  obtain i :: int where i: "ulp x = 2 powi i" using ulp_pow by blast
  obtain j :: int where j: "ulp y = 2 powi j" using ulp_pow by blast
  have "4503599627370496 * ulp x \<le> x" using assms(1) by (rule ulp_lower)
  moreover have "y < 9007199254740992 * ulp y" by (rule ulp_upper)
  ultimately have lt: "ulp x < 2 * ulp y" using assms(2) by linarith
  show ?thesis
  proof (rule ccontr)
    assume "\<not> ulp x \<le> ulp y"
    then have lt2: "(2::real) powi j < 2 powi i" using i j by simp
    have "j < i"
    proof (rule ccontr)
      assume "\<not> j < i"
      then have "i \<le> j" by simp
      then have "(2::real) powi i \<le> 2 powi j" by (rule power_int_increasing) simp
      then show False using lt2 by simp
    qed
    then have "j + 1 \<le> i" by simp
    then have "(2::real) powi (j + 1) \<le> 2 powi i" by (rule power_int_increasing) simp
    then have "2 * ulp y \<le> ulp x" using i j by (simp add: power_int_add)
    then show False using lt by simp
  qed
qed

lemma ulp_double:
  assumes "0 < x" "x \<le> y" "ulp x \<noteq> ulp y"
  shows "2 * ulp x \<le> ulp y"
proof -
  obtain i :: int where i: "ulp x = 2 powi i" using ulp_pow by blast
  obtain j :: int where j: "ulp y = 2 powi j" using ulp_pow by blast
  have "ulp x \<le> ulp y" using assms(1,2) by (rule ulp_le)
  then have lt2: "(2::real) powi i < 2 powi j" using assms(3) i j by simp
  have "i < j"
  proof (rule ccontr)
    assume "\<not> i < j"
    then have "j \<le> i" by simp
    then have "(2::real) powi j \<le> 2 powi i" by (rule power_int_increasing) simp
    then show False using lt2 by simp
  qed
  then have "i + 1 \<le> j" by simp
  then have "(2::real) powi (i + 1) \<le> 2 powi j" by (rule power_int_increasing) simp
  then show ?thesis using i j by (simp add: power_int_add)
qed

lemma roundEven_ge: "of_int n \<le> y \<Longrightarrow> n \<le> roundEven y"
proof -
  assume "of_int n \<le> y"
  then have "n \<le> \<lfloor>y\<rfloor>" by (simp add: le_floor_iff)
  moreover have "\<lfloor>y\<rfloor> \<le> roundEven y" by (simp add: roundEven_def Let_def)
  ultimately show ?thesis by simp
qed

lemma roundEven_le: "y \<le> of_int n \<Longrightarrow> roundEven y \<le> n"
proof (cases "y = of_int n")
  case True
  then show ?thesis by (simp add: roundEven_def Let_def)
next
  case False
  assume "y \<le> of_int n"
  then have "y < of_int n" using False by simp
  then have "\<lfloor>y\<rfloor> < n" by (simp add: floor_less_iff)
  moreover have "roundEven y \<le> \<lfloor>y\<rfloor> + 1" by (simp add: roundEven_def Let_def)
  ultimately show ?thesis by simp
qed

lemma roundEven_mono: "x \<le> y \<Longrightarrow> roundEven x \<le> roundEven y"
proof -
  assume xy: "x \<le> y"
  have fl: "\<lfloor>x\<rfloor> \<le> \<lfloor>y\<rfloor>" using xy by (rule floor_mono)
  show ?thesis
  proof (cases "\<lfloor>x\<rfloor> = \<lfloor>y\<rfloor>")
    case True
    then have "x - of_int \<lfloor>x\<rfloor> \<le> y - of_int \<lfloor>y\<rfloor>" using xy by simp
    then show ?thesis using True by (auto simp: roundEven_def Let_def)
  next
    case False
    then have "\<lfloor>x\<rfloor> + 1 \<le> \<lfloor>y\<rfloor>" using fl by simp
    moreover have "roundEven x \<le> \<lfloor>x\<rfloor> + 1" by (simp add: roundEven_def Let_def)
    moreover have "\<lfloor>y\<rfloor> \<le> roundEven y" by (simp add: roundEven_def Let_def)
    ultimately show ?thesis by simp
  qed
qed

lemma toDouble_nonneg: "0 \<le> x \<Longrightarrow> 0 \<le> toDouble x"
proof (cases "x = 0")
  case True then show ?thesis by (simp add: toDouble_def)
next
  case False
  assume "0 \<le> x"
  then have "0 \<le> x / ulp \<bar>x\<bar>" using ulp_pos[of "\<bar>x\<bar>"] by simp
  then have "0 \<le> roundEven (x / ulp \<bar>x\<bar>)" using roundEven_ge[of 0] by simp
  then show ?thesis using False ulp_pos[of "\<bar>x\<bar>"] by (simp add: toDouble_def Let_def)
qed

lemma toDouble_pos: "0 < x \<Longrightarrow> 0 < toDouble x"
proof -
  assume x: "0 < x"
  let ?u = "ulp \<bar>x\<bar>"
  have u: "0 < ?u" by (rule ulp_pos)
  have "4503599627370496 * ?u \<le> x" using ulp_lower[of "\<bar>x\<bar>"] x by simp
  then have "of_int 4503599627370496 \<le> x / ?u" using u by (simp add: pos_le_divide_eq)
  then have "4503599627370496 \<le> roundEven (x / ?u)" by (rule roundEven_ge)
  then have "0 < roundEven (x / ?u)" by simp
  then show ?thesis using x u by (simp add: toDouble_def Let_def)
qed

lemma toDouble_mono_pos:
  assumes "0 < x" "x \<le> y"
  shows "toDouble x \<le> toDouble y"
proof -
  have y: "0 < y" using assms by simp
  let ?ux = "ulp x" and ?uy = "ulp y"
  have ux: "0 < ?ux" and uy: "0 < ?uy" by (rule ulp_pos)+
  have dx: "toDouble x = of_int (roundEven (x / ?ux)) * ?ux"
    using assms(1) by (simp add: toDouble_def Let_def)
  have dy: "toDouble y = of_int (roundEven (y / ?uy)) * ?uy"
    using y by (simp add: toDouble_def Let_def)
  show ?thesis
  proof (cases "?ux = ?uy")
    case True
    have "x / ?uy \<le> y / ?uy" using assms(2) uy by (simp add: divide_right_mono)
    then have "roundEven (x / ?uy) \<le> roundEven (y / ?uy)" by (rule roundEven_mono)
    then have "(of_int (roundEven (x / ?uy)) :: real) * ?uy \<le> of_int (roundEven (y / ?uy)) * ?uy"
      using uy by simp
    then show ?thesis using dx dy True by simp
  next
    case False
    have d: "2 * ?ux \<le> ?uy" using assms False by (rule ulp_double)
    have "x < 9007199254740992 * ?ux" by (rule ulp_upper)
    then have "x / ?ux \<le> of_int 9007199254740992" using ux by (simp add: pos_divide_le_eq)
    then have "roundEven (x / ?ux) \<le> 9007199254740992" by (rule roundEven_le)
    then have "(of_int (roundEven (x / ?ux)) :: real) \<le> 9007199254740992" by linarith
    then have a: "toDouble x \<le> 9007199254740992 * ?ux" using ux dx by simp
    have "4503599627370496 * ?uy \<le> y" using y by (rule ulp_lower)
    then have "of_int 4503599627370496 \<le> y / ?uy" using uy by (simp add: pos_le_divide_eq)
    then have "4503599627370496 \<le> roundEven (y / ?uy)" by (rule roundEven_ge)
    then have "(4503599627370496 :: real) \<le> of_int (roundEven (y / ?uy))" by linarith
    then have b: "4503599627370496 * ?uy \<le> toDouble y" using uy dy by simp
    show ?thesis using a b d by linarith
  qed
qed

lemma toDouble_mono: "0 \<le> x \<Longrightarrow> x \<le> y \<Longrightarrow> toDouble x \<le> toDouble y"
proof (cases "x = 0")
  case True
  assume "0 \<le> x" "x \<le> y"
  then have "0 \<le> toDouble y" using toDouble_nonneg by simp
  then show ?thesis using True by (simp add: toDouble_def)
next
  case False
  assume "0 \<le> x" "x \<le> y"
  then show ?thesis using False toDouble_mono_pos[of x y] by simp
qed

lemma ulp_half_to_one:
  assumes "1 / 2 \<le> a" "a < 1"
  shows "ulp a = 1 / 9007199254740992"
proof -
  have a: "0 < a" using assms by simp
  obtain k :: int where k: "ulp a = 2 powi k" using ulp_pow by blast
  have lo: "4503599627370496 * ulp a \<le> a" using a by (rule ulp_lower)
  have hi: "a < 9007199254740992 * ulp a" by (rule ulp_upper)
  have p52: "(2::real) powi (- 52) = 1 / 4503599627370496" by (simp add: power_int_minus_divide)
  have p54: "(2::real) powi (- 54) = 1 / 18014398509481984" by (simp add: power_int_minus_divide)
  have p53: "(2::real) powi (- 53) = 1 / 9007199254740992" by (simp add: power_int_minus_divide)
  have "ulp a < 1 / 4503599627370496" using lo assms(2) by simp
  then have u1: "(2::real) powi k < 2 powi (- 52)" using k p52 by simp
  have "1 / 18014398509481984 < ulp a" using hi assms(1) by simp
  then have u2: "(2::real) powi (- 54) < 2 powi k" using k p54 by simp
  have "k < - 52"
  proof (rule ccontr)
    assume "\<not> k < - 52"
    then have "- 52 \<le> k" by simp
    then have "(2::real) powi (- 52) \<le> 2 powi k" by (rule power_int_increasing) simp
    then show False using u1 by simp
  qed
  moreover have "- 54 < k"
  proof (rule ccontr)
    assume "\<not> - 54 < k"
    then have "k \<le> - 54" by simp
    then have "(2::real) powi k \<le> 2 powi (- 54)" by (rule power_int_increasing) simp
    then show False using u2 by simp
  qed
  ultimately have "k = - 53" by simp
  then show ?thesis using k p53 by simp
qed

lemma random_value_le:
  assumes "isRandomValue r"
  shows "r \<le> 1 - 1 / 9007199254740992"
proof (cases "r < 1 / 2")
  case True
  then show ?thesis by simp
next
  case False
  have r: "toDouble r = r" "0 \<le> r" "r < 1" using assms by (simp_all add: isRandomValue_def)
  have h: "1 / 2 \<le> r" using False by simp
  then have u: "ulp \<bar>r\<bar> = 1 / 9007199254740992" using r(3) ulp_half_to_one[of r] by simp
  define m where "m = roundEven (r / ulp \<bar>r\<bar>)"
  have "r \<noteq> 0" using h by simp
  then have "toDouble r = of_int m * (1 / 9007199254740992)"
    using u by (simp add: toDouble_def Let_def m_def)
  then have e: "r = of_int m / 9007199254740992" using r(1) by simp
  then have "(of_int m :: real) < 9007199254740992" using r(3) by simp
  then have "m < 9007199254740992" by linarith
  then have "m \<le> 9007199254740991" by simp
  then have "(of_int m :: real) \<le> 9007199254740991" by linarith
  then show ?thesis using e by simp
qed

lemma toDouble_below_25: "toDouble (25 * (1 - 1 / 9007199254740992)) < 25"
  by (simp add: number_eval)

lemma random_scaled_range:
  assumes "isRandomValue r"
  shows "0 \<le> jsMul r 25 \<and> jsMul r 25 < 25"
proof -
  have r: "0 \<le> r" using assms by (simp add: isRandomValue_def)
  have le: "r \<le> 1 - 1 / 9007199254740992" using assms by (rule random_value_le)
  have "0 \<le> r * 25" using r by simp
  then have lo: "0 \<le> toDouble (r * 25)" by (rule toDouble_nonneg)
  have "r * 25 \<le> 25 * (1 - 1 / 9007199254740992)" using le by simp
  with \<open>0 \<le> r * 25\<close> have "toDouble (r * 25) \<le> toDouble (25 * (1 - 1 / 9007199254740992))"
    by (rule toDouble_mono)
  then have "toDouble (r * 25) < 25" using toDouble_below_25 by linarith
  then show ?thesis using lo by (simp add: jsMul_def)
qed

lemma randomInt_treble: "isRandomValue r \<Longrightarrow> 60 \<le> randomInt r 60 84 \<and> randomInt r 60 84 \<le> 84"
proof -
  assume "isRandomValue r"
  then have "0 \<le> jsMul r 25 \<and> jsMul r 25 < 25" by (rule random_scaled_range)
  then have "0 \<le> \<lfloor>jsMul r 25\<rfloor> \<and> \<lfloor>jsMul r 25\<rfloor> < 25" by (simp add: floor_less_iff)
  then show ?thesis by (simp add: randomInt_def)
qed

lemma randomInt_bass: "isRandomValue r \<Longrightarrow> 36 \<le> randomInt r 36 60 \<and> randomInt r 36 60 \<le> 60"
proof -
  assume "isRandomValue r"
  then have "0 \<le> jsMul r 25 \<and> jsMul r 25 < 25" by (rule random_scaled_range)
  then have "0 \<le> \<lfloor>jsMul r 25\<rfloor> \<and> \<lfloor>jsMul r 25\<rfloor> < 25" by (simp add: floor_less_iff)
  then show ?thesis by (simp add: randomInt_def)
qed

lemma snapToTriad_cases:
  "snapToTriad m mode = (if m \<le> 50 then 48 else if m \<le> 54 then 53 else 55)"
  unfolding snapToTriad_def triads_def snapStep_def Let_def by simp arith

lemma snap_first_min:
  "find (\<lambda>t. \<forall>u \<in> set triads. \<bar>t - m\<bar> \<le> \<bar>u - m\<bar>) triads = Some (snapToTriad m mode)"
  by (auto simp: snapToTriad_cases triads_def)

section \<open>Triad snap\<close>

text \<open>
  C4. For every integer seed pitch, \<open>snapToTriad\<close> returns the element of
  \<open>{48, 53, 55}\<close> with minimal absolute distance to the seed, and when two
  roots are equally distant the earlier-listed one wins: the result is the first
  entry of the list whose distance is minimal. For the seed \<open>54\<close>, between
  \<open>53\<close> and \<open>55\<close>, it is \<open>53\<close>.
\<close>

theorem snapToTriad_nearest:
  "set triads = {48, 53, 55}
   \<and> snapToTriad m mode \<in> set triads
   \<and> (\<forall>u \<in> set triads. \<bar>snapToTriad m mode - m\<bar> \<le> \<bar>u - m\<bar>)
   \<and> find (\<lambda>t. \<forall>u \<in> set triads. \<bar>t - m\<bar> \<le> \<bar>u - m\<bar>) triads = Some (snapToTriad m mode)
   \<and> snapToTriad 54 mode = 53"
proof -
  have f: "find (\<lambda>t. \<forall>u \<in> set triads. \<bar>t - m\<bar> \<le> \<bar>u - m\<bar>) triads = Some (snapToTriad m mode)"
    by (rule snap_first_min)
  have a: "snapToTriad m mode \<in> set triads"
    by (simp add: snapToTriad_cases triads_def)
  have b: "\<forall>u \<in> set triads. \<bar>snapToTriad m mode - m\<bar> \<le> \<bar>u - m\<bar>"
    by (auto simp: snapToTriad_cases triads_def)
  have c: "snapToTriad 54 mode = 53" by (simp add: snapToTriad_cases)
  have d: "set triads = {48, 53, 55}" by (simp add: triads_def)
  show ?thesis using f a b c d by blast
qed

theorem snapToTriad_nearest_witness:
  "snapToTriad 54 G_MAJOR = 53 \<and> \<bar>(53::int) - 54\<bar> = \<bar>55 - 54\<bar>
   \<and> snapToTriad 54 G_MAJOR \<in> set triads"
proof -
  note t = snapToTriad_nearest [of 54 G_MAJOR]
  have "snapToTriad 54 G_MAJOR = 53" using t by (elim conjE)
  moreover have "snapToTriad 54 G_MAJOR \<in> set triads" using t by (elim conjE)
  ultimately show ?thesis by simp
qed

section \<open>Active-note tracker\<close>

lemma active_fold:
  "fold (\<lambda>ev st. if P ev then insert (midi ev) st else st) evs A
     = A \<union> {midi e | e. e \<in> set evs \<and> P e}"
  by (induction evs arbitrary: A) auto

lemma toDouble_half: "toDouble (1 / 2) = 1 / 2" by (simp add: number_eval)
lemma toDouble_one: "toDouble 1 = 1" by (simp add: number_eval)
lemma toDouble_three_halves: "toDouble (3 / 2) = 3 / 2" by (simp add: number_eval)

text \<open>
  C7. On every tracker tick the active set is empty when the component is idle;
  when it is playing it is the set of the pitches of the events \<open>e\<close> of the
  current phrase with \<open>elapsed\<close> in the interval from \<open>time e\<close> to
  \<open>time e + duration e\<close>, closed at both ends (the sum is the sum of the source
  language). For a phrase with the single event \<open>{time: 0, duration: 1, pitch: 60}\<close>,
  elapsed \<open>0.5\<close> and elapsed \<open>1.0\<close> both give \<open>{60}\<close> and elapsed \<open>1.5\<close>
  gives the empty set.
\<close>

theorem updateActiveNotes_active_set:
  "activeMidiSet (updateActiveNotes now s) =
     (if isPlaying s
      then {midi e | e. e \<in> set (noteEvents s) \<and> time e \<le> elapsedSeconds now s
                        \<and> elapsedSeconds now s \<le> jsAdd (time e) (duration e)}
      else {})
   \<and> activeMidiSet (updateActiveNotes (p + 500)
        (s\<lparr>isPlaying := True, phraseStart := p,
           noteEvents := [\<lparr>time = 0, duration = 1, midi = 60, staff = st, isChord = c\<rparr>]\<rparr>)) = {60}
   \<and> activeMidiSet (updateActiveNotes (p + 1000)
        (s\<lparr>isPlaying := True, phraseStart := p,
           noteEvents := [\<lparr>time = 0, duration = 1, midi = 60, staff = st, isChord = c\<rparr>]\<rparr>)) = {60}
   \<and> activeMidiSet (updateActiveNotes (p + 1500)
        (s\<lparr>isPlaying := True, phraseStart := p,
           noteEvents := [\<lparr>time = 0, duration = 1, midi = 60, staff = st, isChord = c\<rparr>]\<rparr>)) = {}"
proof -
  have g: "activeMidiSet (updateActiveNotes now s) =
     (if isPlaying s
      then {midi e | e. e \<in> set (noteEvents s) \<and> time e \<le> elapsedSeconds now s
                        \<and> elapsedSeconds now s \<le> jsAdd (time e) (duration e)}
      else {})"
    by (simp add: updateActiveNotes_def Let_def active_fold)
  have e1: "jsDiv 500 1000 = 1 / 2" by (simp add: jsDiv_def toDouble_half)
  have e2: "jsDiv 1000 1000 = 1" by (simp add: jsDiv_def toDouble_one)
  have e3: "jsDiv 1500 1000 = 3 / 2" by (simp add: jsDiv_def toDouble_three_halves)
  have e4: "jsAdd 0 1 = 1" by (simp add: jsAdd_def toDouble_one)
  have a: "activeMidiSet (updateActiveNotes (p + 500)
        (s\<lparr>isPlaying := True, phraseStart := p,
           noteEvents := [\<lparr>time = 0, duration = 1, midi = 60, staff = st, isChord = c\<rparr>]\<rparr>)) = {60}"
    by (simp add: updateActiveNotes_def elapsedSeconds_def e1 e4)
  have b: "activeMidiSet (updateActiveNotes (p + 1000)
        (s\<lparr>isPlaying := True, phraseStart := p,
           noteEvents := [\<lparr>time = 0, duration = 1, midi = 60, staff = st, isChord = c\<rparr>]\<rparr>)) = {60}"
    by (simp add: updateActiveNotes_def elapsedSeconds_def e2 e4)
  have c: "activeMidiSet (updateActiveNotes (p + 1500)
        (s\<lparr>isPlaying := True, phraseStart := p,
           noteEvents := [\<lparr>time = 0, duration = 1, midi = 60, staff = st, isChord = c\<rparr>]\<rparr>)) = {}"
    by (simp add: updateActiveNotes_def elapsedSeconds_def e3 e4)
  show ?thesis using g a b c by blast
qed

theorem updateActiveNotes_active_set_witness:
  "activeMidiSet (updateActiveNotes 1000
     ((initialComponent zeroRandom)\<lparr>isPlaying := True, phraseStart := 0,
        noteEvents := [\<lparr>time = 0, duration = 1, midi = 60, staff = treble, isChord = False\<rparr>]\<rparr>))
     = {60}
   \<and> activeMidiSet (updateActiveNotes 1000 (initialComponent zeroRandom)) = {}"
proof -
  have "activeMidiSet (updateActiveNotes (0 + 1000)
     ((initialComponent zeroRandom)\<lparr>isPlaying := True, phraseStart := 0,
        noteEvents := [\<lparr>time = 0, duration = 1, midi = 60, staff = treble, isChord = False\<rparr>]\<rparr>))
     = {60}"
    using updateActiveNotes_active_set [of 0 "initialComponent zeroRandom" 0 treble False]
    by (elim conjE)
  moreover have "activeMidiSet (updateActiveNotes 1000 (initialComponent zeroRandom)) = {}"
    using updateActiveNotes_active_set [of 1000 "initialComponent zeroRandom"]
    by (simp add: initialComponent_def)
  ultimately show ?thesis by simp
qed


section \<open>Progress indicator\<close>

lemma toDouble_neg: "x < 0 \<Longrightarrow> toDouble x < 0"
proof -
  assume x: "x < 0"
  let ?u = "ulp \<bar>x\<bar>"
  have u: "0 < ?u" by (rule ulp_pos)
  have "4503599627370496 * ?u \<le> - x" using ulp_lower[of "\<bar>x\<bar>"] x by simp
  then have "x / ?u \<le> of_int (- 4503599627370496)" using u by (simp add: pos_divide_le_eq)
  then have "roundEven (x / ?u) \<le> - 4503599627370496" by (rule roundEven_le)
  then have "roundEven (x / ?u) < 0" by simp
  then have "(of_int (roundEven (x / ?u)) :: real) < 0" by simp
  then have "of_int (roundEven (x / ?u)) * ?u < 0" using u by (simp add: mult_neg_pos)
  then show ?thesis using x by (simp add: toDouble_def Let_def)
qed

lemma phraseDuration_pos: "0 < bpm s \<Longrightarrow> 0 < phraseDuration s"
proof -
  assume b: "0 < bpm s"
  then have "0 < jsDiv 60 (bpm s)" unfolding jsDiv_def by (intro toDouble_pos) simp
  moreover have "0 < beatsPerBarOf (selectedMeter s)" by (cases "selectedMeter s") simp
  ultimately have "0 < jsMul (of_nat (beatsPerBarOf (selectedMeter s))) (jsDiv 60 (bpm s))"
    unfolding jsMul_def by (intro toDouble_pos) simp
  then show ?thesis
    unfolding phraseDuration_def Let_def jsMul_def
    by (intro toDouble_pos) (simp add: phraseLengthBars_def)
qed

lemma elapsed_sign:
  "(phraseStart s \<le> now \<longrightarrow> 0 \<le> elapsedSeconds now s)
   \<and> (now < phraseStart s \<longrightarrow> elapsedSeconds now s < 0)"
proof -
  have "phraseStart s \<le> now \<Longrightarrow> 0 \<le> elapsedSeconds now s"
    unfolding elapsedSeconds_def jsDiv_def by (intro toDouble_nonneg) simp
  moreover have "now < phraseStart s \<Longrightarrow> elapsedSeconds now s < 0"
    unfolding elapsedSeconds_def jsDiv_def by (intro toDouble_neg) simp
  ultimately show ?thesis by blast
qed

text \<open>
  C9, as amended. On every progress tick the reported value is \<open>0\<close> when the
  component is idle and the smaller of \<open>1\<close> and \<open>elapsed / phraseDuration\<close> when
  it is playing. It is never above \<open>1\<close>. With a positive tempo it is not below
  \<open>0\<close> when the clock is not before the phrase start, and it is negative when
  the component is playing and the clock is before the phrase start: there is
  no lower clamp.
\<close>

theorem updateProgress_value:
  "progress (updateProgress now s) =
     (if isPlaying s then min 1 (jsDiv (elapsedSeconds now s) (phraseDuration s)) else 0)
   \<and> progress (updateProgress now s) \<le> 1
   \<and> (0 < bpm s \<and> phraseStart s \<le> now \<longrightarrow> 0 \<le> progress (updateProgress now s))
   \<and> (0 < bpm s \<and> isPlaying s \<and> now < phraseStart s \<longrightarrow> progress (updateProgress now s) < 0)"
proof -
  have v: "progress (updateProgress now s) =
     (if isPlaying s then min 1 (jsDiv (elapsedSeconds now s) (phraseDuration s)) else 0)"
    by (simp add: updateProgress_def Let_def min_def)
  then have le: "progress (updateProgress now s) \<le> 1" by simp
  have nn: "0 \<le> progress (updateProgress now s)" if h: "0 < bpm s" "phraseStart s \<le> now"
  proof -
    have "0 \<le> elapsedSeconds now s" using h(2) elapsed_sign by blast
    moreover have "0 < phraseDuration s" using h(1) by (rule phraseDuration_pos)
    ultimately have "0 \<le> elapsedSeconds now s / phraseDuration s" by simp
    then have "0 \<le> jsDiv (elapsedSeconds now s) (phraseDuration s)"
      unfolding jsDiv_def by (rule toDouble_nonneg)
    then show ?thesis using v by simp
  qed
  have ng: "progress (updateProgress now s) < 0"
    if h: "0 < bpm s" "isPlaying s" "now < phraseStart s"
  proof -
    have "elapsedSeconds now s < 0" using h(3) elapsed_sign by blast
    moreover have "0 < phraseDuration s" using h(1) by (rule phraseDuration_pos)
    ultimately have "elapsedSeconds now s / phraseDuration s < 0" by (simp add: divide_neg_pos)
    then have "jsDiv (elapsedSeconds now s) (phraseDuration s) < 0"
      unfolding jsDiv_def by (rule toDouble_neg)
    then show ?thesis using v h(2) by simp
  qed
  show ?thesis using v le nn ng by blast
qed

theorem updateProgress_value_witness:
  "progress (updateProgress 0 lateStart) < 0 \<and> progress (updateProgress 5000 lateStart) \<le> 1
   \<and> 0 \<le> progress (updateProgress 5000 lateStart)"
proof -
  have b: "0 < bpm lateStart" by (simp add: lateStart_def initialComponent_def)
  have p: "isPlaying lateStart" by (simp add: lateStart_def)
  have ps: "phraseStart lateStart = 1000" by (simp add: lateStart_def)
  have "progress (updateProgress 0 lateStart) < 0"
    using updateProgress_value [of 0 lateStart] b p ps by simp
  moreover have "progress (updateProgress 5000 lateStart) \<le> 1"
    using updateProgress_value [of 5000 lateStart] by (elim conjE)
  moreover have "0 \<le> progress (updateProgress 5000 lateStart)"
    using updateProgress_value [of 5000 lateStart] b ps by simp
  ultimately show ?thesis by blast
qed

text \<open>
  The claim as stated fails: playing, with the clock one second before the
  phrase start, the reported progress is below \<open>0\<close>.
\<close>

theorem updateProgress_negative: "\<not> 0 \<le> progress (updateProgress 0 lateStart)"
proof -
  have e: "elapsedSeconds 0 lateStart = - 1"
    by (simp add: elapsedSeconds_def lateStart_def number_eval)
  have d: "phraseDuration lateStart = 5404319552844595 / 562949953421312"
    by (simp add: phraseDuration_def lateStart_def initialComponent_def phraseLengthBars_def
          number_eval)
  have "jsDiv (- 1) (5404319552844595 / 562949953421312) < 0"
    by (simp add: number_eval)
  moreover have "isPlaying lateStart" by (simp add: lateStart_def)
  ultimately show ?thesis
    by (simp add: updateProgress_def Let_def e d)
qed

section \<open>Playback scheduler\<close>

lemma generatePhrase_keeps:
  "isPlaying (generatePhrase s) = isPlaying s"
  "phraseStart (generatePhrase s) = phraseStart s"
  "playbackTimers (generatePhrase s) = playbackTimers s"
  "pendingTimers (generatePhrase s) = pendingTimers s"
  "triggered (generatePhrase s) = triggered s"
  "pianoSampler (generatePhrase s) = pianoSampler s"
  "samplerLoaded (generatePhrase s) = samplerLoaded s"
  "nextTimerId (generatePhrase s) = nextTimerId s"
  by (simp_all add: generatePhrase_def Let_def)

lemma setParam_keeps:
  "isPlaying (setParam c s) = isPlaying s"
  "phraseStart (setParam c s) = phraseStart s"
  "playbackTimers (setParam c s) = playbackTimers s"
  "pendingTimers (setParam c s) = pendingTimers s"
  "triggered (setParam c s) = triggered s"
  "pianoSampler (setParam c s) = pianoSampler s"
  "samplerLoaded (setParam c s) = samplerLoaded s"
  "nextTimerId (setParam c s) = nextTimerId s"
  "randomValues (setParam c s) = randomValues s"
  "randomCalls (setParam c s) = randomCalls s"
  by (cases c; simp)+

text \<open>
  C1, as amended. For every parameter-change event (mode, meter, tempo or
  difficulty), whether or not the component is playing, the handler only
  regenerates the phrase from the updated parameters. It does not stop playback:
  \<open>isPlaying\<close>, the phrase start, the list of timer ids and every pending timer
  are left as they were.
\<close>

theorem onParamChange_regenerates_only:
  "noteEvents (onParamChange c s) =
     fst (generateEvents (selectedMode (setParam c s)) (selectedMeter (setParam c s))
            (bpm (setParam c s)) (difficulty (setParam c s)) (randomValues s) (randomCalls s))
   \<and> isPlaying (onParamChange c s) = isPlaying s
   \<and> phraseStart (onParamChange c s) = phraseStart s
   \<and> playbackTimers (onParamChange c s) = playbackTimers s
   \<and> pendingTimers (onParamChange c s) = pendingTimers s"
  by (simp add: onParamChange_def generatePhrase_keeps setParam_keeps)
    (simp add: generatePhrase_def Let_def setParam_keeps)

lemma scheduleNote_fields:
  "pendingTimers (scheduleNote now ev s) = pendingTimers s @
     [\<lparr>timerId = nextTimerId s, dueAt = of_int now + jsMul (time ev) 1000,
       callback = NoteTrigger ev\<rparr>]"
  "playbackTimers (scheduleNote now ev s) = playbackTimers s @ [nextTimerId s]"
  "nextTimerId (scheduleNote now ev s) = nextTimerId s + 1"
  "isPlaying (scheduleNote now ev s) = isPlaying s"
  "triggered (scheduleNote now ev s) = triggered s"
  "phraseStart (scheduleNote now ev s) = phraseStart s"
  "pianoSampler (scheduleNote now ev s) = pianoSampler s"
  "samplerLoaded (scheduleNote now ev s) = samplerLoaded s"
  "noteEvents (scheduleNote now ev s) = noteEvents s"
  "bpm (scheduleNote now ev s) = bpm s"
  "selectedMeter (scheduleNote now ev s) = selectedMeter s"
  by (simp_all add: scheduleNote_def setTimeout_def Let_def)

lemma fold_scheduleNote_keeps:
  "isPlaying (fold (scheduleNote now) evs s) = isPlaying s"
  "triggered (fold (scheduleNote now) evs s) = triggered s"
  "phraseStart (fold (scheduleNote now) evs s) = phraseStart s"
  "pianoSampler (fold (scheduleNote now) evs s) = pianoSampler s"
  "samplerLoaded (fold (scheduleNote now) evs s) = samplerLoaded s"
  "noteEvents (fold (scheduleNote now) evs s) = noteEvents s"
  by (induction evs arbitrary: s; simp add: scheduleNote_fields)+

lemma clearTimeout_fields:
  "pendingTimers (clearTimeout tid s) = filter (\<lambda>t. timerId t \<noteq> tid) (pendingTimers s)"
  "playbackTimers (clearTimeout tid s) = playbackTimers s"
  "isPlaying (clearTimeout tid s) = isPlaying s"
  "triggered (clearTimeout tid s) = triggered s"
  "phraseStart (clearTimeout tid s) = phraseStart s"
  "pianoSampler (clearTimeout tid s) = pianoSampler s"
  "samplerLoaded (clearTimeout tid s) = samplerLoaded s"
  "noteEvents (clearTimeout tid s) = noteEvents s"
  "nextTimerId (clearTimeout tid s) = nextTimerId s"
  by (simp_all add: clearTimeout_def)

lemma fold_clearTimeout:
  "fold clearTimeout ids s =
     s\<lparr>pendingTimers := filter (\<lambda>t. timerId t \<notin> set ids) (pendingTimers s)\<rparr>"
proof (induction ids arbitrary: s)
  case Nil
  then show ?case by simp
next
  case (Cons a ids)
  have "filter (\<lambda>t. timerId t \<notin> set ids) (filter (\<lambda>t. timerId t \<noteq> a) (pendingTimers s))
        = filter (\<lambda>t. timerId t \<notin> set (a # ids)) (pendingTimers s)"
    by (induction "pendingTimers s") auto
  then show ?case using Cons by (simp add: clearTimeout_def)
qed

lemma clearPlayback_eq:
  "clearPlayback s =
     s\<lparr>pendingTimers := filter (\<lambda>t. timerId t \<notin> set (playbackTimers s)) (pendingTimers s),
       playbackTimers := []\<rparr>"
  by (simp add: clearPlayback_def fold_clearTimeout)

lemma tracked_scheduleNote: "tracked s \<Longrightarrow> tracked (scheduleNote now ev s)"
  by (auto simp: tracked_def scheduleNote_fields)

lemma tracked_fold_scheduleNote: "tracked s \<Longrightarrow> tracked (fold (scheduleNote now) evs s)"
  by (induction evs arbitrary: s) (simp_all add: tracked_scheduleNote)

lemma clearPlayback_tracked:
  "tracked s \<Longrightarrow> clearPlayback s = s\<lparr>pendingTimers := [], playbackTimers := []\<rparr>"
proof -
  assume "tracked s"
  then have "filter (\<lambda>t. timerId t \<notin> set (playbackTimers s)) (pendingTimers s) = []"
    by (auto simp: tracked_def filter_empty_conv)
  then show ?thesis by (simp add: clearPlayback_eq)
qed

lemma startPlayback_not_loaded:
  "\<not> samplerLoaded s \<Longrightarrow> startPlayback now s = s\<lparr>pianoSampler := True\<rparr>"
  by (simp add: startPlayback_def ensureAudio_def Let_def)

lemma startPlayback_loaded:
  assumes "samplerLoaded s"
  shows "isPlaying (startPlayback now s)"
    and "phraseStart (startPlayback now s) = now"
    and "pendingTimers (startPlayback now s) \<noteq> []"
    and "triggered (startPlayback now s) = triggered s"
    and "samplerLoaded (startPlayback now s)"
    and "pianoSampler (startPlayback now s)"
  using assms
  by (simp_all add: startPlayback_def ensureAudio_def Let_def setTimeout_def
        fold_scheduleNote_keeps clearPlayback_eq)

lemma startPlayback_triggered: "triggered (startPlayback now s) = triggered s"
  by (cases "samplerLoaded s") (simp_all add: startPlayback_loaded startPlayback_not_loaded)

lemma tracked_startPlayback: "tracked s \<Longrightarrow> tracked (startPlayback now s)"
proof (cases "samplerLoaded s")
  case False
  assume "tracked s"
  then show ?thesis using False by (simp add: startPlayback_not_loaded tracked_def)
next
  case True
  assume t: "tracked s"
  let ?s3 = "(clearPlayback (ensureAudio s))\<lparr>phraseStart := now, isPlaying := True\<rparr>"
  have "tracked (ensureAudio s)" using t by (simp add: tracked_def ensureAudio_def)
  then have "tracked ?s3" by (simp add: clearPlayback_tracked) (simp add: tracked_def)
  then have "tracked (fold (scheduleNote now) (noteEvents ?s3) ?s3)"
    by (rule tracked_fold_scheduleNote)
  then show ?thesis using True
    by (auto simp: startPlayback_def ensureAudio_def Let_def setTimeout_def tracked_def)
qed

lemma consistent_startPlayback: "consistent s \<Longrightarrow> consistent (startPlayback now s)"
proof (cases "samplerLoaded s")
  case False
  assume "consistent s"
  then show ?thesis using False
    by (simp add: startPlayback_not_loaded consistent_def tracked_def)
next
  case True
  assume "consistent s"
  then have "tracked (startPlayback now s)" by (simp add: consistent_def tracked_startPlayback)
  then show ?thesis using True by (simp add: consistent_def startPlayback_loaded)
qed

lemma startPlayback_call_resume: "startPlaybackResume now (startPlaybackCall s) = startPlayback now s"
  by (simp add: startPlaybackResume_def startPlaybackCall_def)

lemma consistent_startPlaybackCall: "consistent s \<Longrightarrow> consistent (startPlaybackCall s)"
  by (simp add: consistent_def tracked_def startPlaybackCall_def)

lemma consistent_startPlaybackResume: "consistent s \<Longrightarrow> consistent (startPlaybackResume now s)"
proof (cases "startsAwaiting s = 0")
  case True
  assume "consistent s"
  then show ?thesis using True by (simp add: startPlaybackResume_def)
next
  case False
  assume "consistent s"
  then have "consistent (s\<lparr>startsAwaiting := startsAwaiting s - 1\<rparr>)"
    by (simp add: consistent_def tracked_def)
  then have "consistent (startPlayback now (s\<lparr>startsAwaiting := startsAwaiting s - 1\<rparr>))"
    by (rule consistent_startPlayback)
  then show ?thesis using False by (simp add: startPlaybackResume_def)
qed

lemma consistent_stopPlayback: "consistent s \<Longrightarrow> consistent (stopPlayback s)"
  by (auto simp: consistent_def stopPlayback_def clearPlayback_eq tracked_def)

lemma consistent_generatePhrase: "consistent s \<Longrightarrow> consistent (generatePhrase s)"
  by (simp add: consistent_def tracked_def generatePhrase_keeps)

lemma consistent_onParamChange: "consistent s \<Longrightarrow> consistent (onParamChange c s)"
  by (simp add: consistent_def tracked_def onParamChange_def generatePhrase_keeps setParam_keeps)

lemma fireTimer_no_timers: "pendingTimers s = [] \<Longrightarrow> fireTimer tid now s = s"
  by (simp add: fireTimer_def)

lemma consistent_fireTimer: "consistent s \<Longrightarrow> consistent (fireTimer tid now s)"
proof (cases "isPlaying s")
  case False
  assume c: "consistent s"
  then have "pendingTimers s = []" using False by (auto simp: consistent_def tracked_def)
  then show ?thesis using c by (simp add: fireTimer_no_timers)
next
  case True
  assume c: "consistent s"
  show ?thesis
  proof (cases "find (\<lambda>t. timerId t = tid) (pendingTimers s)")
    case None
    then show ?thesis using c by (simp add: fireTimer_def)
  next
    case (Some t)
    let ?s1 = "s\<lparr>pendingTimers := filter (\<lambda>x. timerId x \<noteq> tid) (pendingTimers s)\<rparr>"
    have c1: "consistent ?s1" using c by (auto simp: consistent_def tracked_def)
    have p1: "isPlaying ?s1" using True by simp
    show ?thesis
    proof (cases "of_int now < dueAt t")
      case True
      then show ?thesis using c Some by (simp add: fireTimer_def)
    next
      case False
      show ?thesis
      proof (cases "callback t")
        case (NoteTrigger ev)
        have "consistent (noteCallback ev ?s1)"
          using c1 by (simp add: noteCallback_def consistent_def tracked_def)
        then show ?thesis using Some False NoteTrigger by (simp add: fireTimer_def Let_def)
      next
        case LoopTrigger
        have "consistent (startPlaybackCall (generatePhrase ?s1))"
          using c1 by (intro consistent_startPlaybackCall consistent_generatePhrase)
        then have "consistent (loopCallback ?s1)" using p1 by (simp add: loopCallback_def)
        then show ?thesis using Some False LoopTrigger by (simp add: fireTimer_def Let_def)
      qed
    qed
  qed
qed

lemma consistent_handle: "consistent s \<Longrightarrow> consistent (handle e s)"
proof (cases e)
  case ClickStart
  assume "consistent s" then show ?thesis using ClickStart by (simp add: consistent_startPlaybackCall)
next
  case (AudioReady now)
  assume "consistent s" then show ?thesis using AudioReady
    by (simp add: consistent_startPlaybackResume)
next
  case ClickStop
  assume "consistent s" then show ?thesis using ClickStop by (simp add: consistent_stopPlayback)
next
  case (TimerFires tid now)
  assume "consistent s" then show ?thesis using TimerFires by (simp add: consistent_fireTimer)
next
  case (ParamChanged c)
  assume "consistent s" then show ?thesis using ParamChanged by (simp add: consistent_onParamChange)
next
  case SamplerLoads
  assume "consistent s" then show ?thesis using SamplerLoads
    by (auto simp: onSamplerLoad_def consistent_def tracked_def)
next
  case (KeyDown m)
  assume "consistent s" then show ?thesis using KeyDown
    by (auto simp: playMidiOnce_def ensureAudio_def Let_def consistent_def tracked_def)
next
  case (ActiveFrame now)
  assume "consistent s" then show ?thesis using ActiveFrame
    by (auto simp: updateActiveNotes_def Let_def consistent_def tracked_def)
next
  case (ProgressFrame now)
  assume "consistent s" then show ?thesis using ProgressFrame
    by (auto simp: updateProgress_def Let_def consistent_def tracked_def)
qed

lemma consistent_run: "consistent s \<Longrightarrow> consistent (run evs s)"
  unfolding run_def by (induction evs arbitrary: s) (simp_all add: consistent_handle)

lemma consistent_mounted: "consistent (onMounted now (initialComponent rand))"
  by (simp add: onMounted_def updateActiveNotes_def Let_def consistent_def tracked_def
        generatePhrase_keeps ensureAudio_def initialComponent_def)

lemma consistent_reached: "consistent (reached rand t0 evs)"
  unfolding reached_def by (intro consistent_run consistent_mounted)

lemma stopPlayback_consistent:
  "consistent s \<Longrightarrow> stopPlayback s = s\<lparr>isPlaying := False, pendingTimers := [], playbackTimers := []\<rparr>"
proof -
  assume "consistent s"
  then have "tracked (s\<lparr>isPlaying := False\<rparr>)" by (simp add: consistent_def tracked_def)
  then show ?thesis by (simp add: stopPlayback_def clearPlayback_tracked)
qed

lemma fireTimer_idle:
  "\<not> isPlaying s \<Longrightarrow>
     \<not> isPlaying (fireTimer tid now s) \<and> triggered (fireTimer tid now s) = triggered s"
  by (auto simp: fireTimer_def noteCallback_def loopCallback_def Let_def
           split: option.splits TimerAction.splits)

theorem onParamChange_regenerates_only_witness:
  "isPlaying (onParamChange (SetBpm 120) playingExample) = isPlaying playingExample
   \<and> pendingTimers (onParamChange (SetBpm 120) playingExample) = pendingTimers playingExample"
  using onParamChange_regenerates_only [of "SetBpm 120" playingExample] by (elim conjE) simp

text \<open>
  The claim C1 as stated fails: a parameter change on the playing component
  leaves it playing with its timers pending.
\<close>

theorem onParamChange_keeps_playing:
  "isPlaying playingExample
   \<and> isPlaying (onParamChange (SetBpm 120) playingExample)
   \<and> pendingTimers (onParamChange (SetBpm 120) playingExample) \<noteq> []"
proof -
  have l: "samplerLoaded (onSamplerLoad (onMounted 0 (initialComponent zeroRandom)))"
    by (simp add: onSamplerLoad_def onMounted_def updateActiveNotes_def Let_def
          generatePhrase_keeps ensureAudio_def)
  have p: "playingExample = startPlayback 0 (onSamplerLoad (onMounted 0 (initialComponent zeroRandom)))"
    by (simp add: playingExample_def reached_def run_def startPlayback_call_resume)
  have a: "isPlaying playingExample" "pendingTimers playingExample \<noteq> []"
    unfolding p using l by (simp_all add: startPlayback_loaded)
  then show ?thesis
    by (simp add: onParamChange_def generatePhrase_keeps setParam_keeps)
qed

lemma pianoSampler_startPlayback: "pianoSampler (startPlayback now s)"
  by (cases "samplerLoaded s") (simp_all add: startPlayback_loaded startPlayback_not_loaded)

lemma pianoSampler_fireTimer: "pianoSampler s \<Longrightarrow> pianoSampler (fireTimer tid now s)"
  by (auto simp: fireTimer_def noteCallback_def loopCallback_def Let_def
        startPlaybackCall_def generatePhrase_keeps split: option.splits TimerAction.splits)

lemma pianoSampler_handle: "pianoSampler s \<Longrightarrow> pianoSampler (handle e s)"
  by (cases e)
     (auto simp: pianoSampler_startPlayback pianoSampler_fireTimer stopPlayback_def
        startPlaybackCall_def startPlaybackResume_def
        clearPlayback_eq onParamChange_def generatePhrase_keeps setParam_keeps
        onSamplerLoad_def playMidiOnce_def ensureAudio_def Let_def
        updateActiveNotes_def updateProgress_def)

lemma pianoSampler_run: "pianoSampler s \<Longrightarrow> pianoSampler (run evs s)"
  unfolding run_def by (induction evs arbitrary: s) (simp_all add: pianoSampler_handle)

lemma pianoSampler_reached: "pianoSampler (reached rand t0 evs)"
  unfolding reached_def
  by (rule pianoSampler_run)
     (simp add: onMounted_def updateActiveNotes_def Let_def generatePhrase_keeps ensureAudio_def)

text \<open>
  C6. If the audio backend is not ready (no sampler, or samples not loaded),
  \<open>startPlayback\<close> does not set \<open>isPlaying\<close>, does not update the phrase start
  and schedules no timer: the only variable it can change is the sampler
  variable, which \<open>ensureAudio\<close> fills, and for a mounted component, whose
  sampler exists, the state is unchanged.
\<close>

theorem startPlayback_not_ready:
  "(samplerLoaded s \<longrightarrow> pianoSampler s) \<and> (\<not> pianoSampler s \<or> \<not> samplerLoaded s) \<longrightarrow>
     startPlayback now s = s\<lparr>pianoSampler := True\<rparr>
     \<and> isPlaying (startPlayback now s) = isPlaying s
     \<and> phraseStart (startPlayback now s) = phraseStart s
     \<and> playbackTimers (startPlayback now s) = playbackTimers s
     \<and> pendingTimers (startPlayback now s) = pendingTimers s
     \<and> triggered (startPlayback now s) = triggered s
     \<and> (s = reached rand t0 evs \<longrightarrow> startPlayback now s = s)"
proof (intro impI)
  assume h: "(samplerLoaded s \<longrightarrow> pianoSampler s) \<and> (\<not> pianoSampler s \<or> \<not> samplerLoaded s)"
  then have n: "\<not> samplerLoaded s" by blast
  then have e: "startPlayback now s = s\<lparr>pianoSampler := True\<rparr>"
    by (rule startPlayback_not_loaded)
  have r: "startPlayback now s = s" if "s = reached rand t0 evs"
  proof -
    have "pianoSampler s" using that pianoSampler_reached by simp
    then show ?thesis using e by simp
  qed
  show "startPlayback now s = s\<lparr>pianoSampler := True\<rparr>
     \<and> isPlaying (startPlayback now s) = isPlaying s
     \<and> phraseStart (startPlayback now s) = phraseStart s
     \<and> playbackTimers (startPlayback now s) = playbackTimers s
     \<and> pendingTimers (startPlayback now s) = pendingTimers s
     \<and> triggered (startPlayback now s) = triggered s
     \<and> (s = reached rand t0 evs \<longrightarrow> startPlayback now s = s)"
    using e r by simp
qed

theorem startPlayback_not_ready_witness:
  "\<not> pianoSampler (initialComponent zeroRandom)
   \<and> \<not> isPlaying (startPlayback 5 (initialComponent zeroRandom))
   \<and> pendingTimers (startPlayback 5 (initialComponent zeroRandom)) = []
   \<and> phraseStart (startPlayback 5 (initialComponent zeroRandom)) = 0"
proof -
  have a: "\<not> pianoSampler (initialComponent zeroRandom)"
    and b: "\<not> samplerLoaded (initialComponent zeroRandom)"
    by (simp_all add: initialComponent_def)
  note t = startPlayback_not_ready [of "initialComponent zeroRandom" 5 zeroRandom 0 "[]"]
  have "isPlaying (startPlayback 5 (initialComponent zeroRandom))
          = isPlaying (initialComponent zeroRandom)"
    and "pendingTimers (startPlayback 5 (initialComponent zeroRandom))
          = pendingTimers (initialComponent zeroRandom)"
    and "phraseStart (startPlayback 5 (initialComponent zeroRandom))
          = phraseStart (initialComponent zeroRandom)"
    using t a b by blast+
  then show ?thesis using a by (simp add: initialComponent_def)
qed

text \<open>
  What \<open>startPlayback\<close> schedules on a ready component: one timer per note
  event, in the order of the phrase, then the loop timer.
\<close>

lemma scheduleNote_eq:
  "scheduleNote now ev s =
     s\<lparr>pendingTimers := pendingTimers s @
          [\<lparr>timerId = nextTimerId s, dueAt = of_int now + jsMul (time ev) 1000,
            callback = NoteTrigger ev\<rparr>],
       nextTimerId := nextTimerId s + 1,
       playbackTimers := playbackTimers s @ [nextTimerId s]\<rparr>"
  by (simp add: scheduleNote_def setTimeout_def Let_def)

lemma fold_scheduleNote_eq:
  "fold (scheduleNote now) evs s =
     s\<lparr>pendingTimers := pendingTimers s @
          map (\<lambda>p. \<lparr>timerId = fst p, dueAt = of_int now + jsMul (time (snd p)) 1000,
                     callback = NoteTrigger (snd p)\<rparr>) (enumerate (nextTimerId s) evs),
       nextTimerId := nextTimerId s + length evs,
       playbackTimers := playbackTimers s @ map fst (enumerate (nextTimerId s) evs)\<rparr>"
proof (induction evs arbitrary: s)
  case Nil
  then show ?case by simp
next
  case (Cons e es)
  have "fold (scheduleNote now) (e # es) s = fold (scheduleNote now) es (scheduleNote now e s)"
    by simp
  also have "\<dots> = s\<lparr>pendingTimers := pendingTimers s @
          map (\<lambda>p. \<lparr>timerId = fst p, dueAt = of_int now + jsMul (time (snd p)) 1000,
                     callback = NoteTrigger (snd p)\<rparr>) (enumerate (nextTimerId s) (e # es)),
       nextTimerId := nextTimerId s + length (e # es),
       playbackTimers := playbackTimers s @ map fst (enumerate (nextTimerId s) (e # es))\<rparr>"
    unfolding Cons by (simp add: scheduleNote_eq)
  finally show ?case .
qed

lemma startPlayback_ready:
  assumes "samplerLoaded s" and "tracked s"
  shows "startPlayback now s =
     s\<lparr>pianoSampler := True, phraseStart := now, isPlaying := True,
       pendingTimers :=
          map (\<lambda>p. \<lparr>timerId = fst p, dueAt = of_int now + jsMul (time (snd p)) 1000,
                     callback = NoteTrigger (snd p)\<rparr>) (enumerate (nextTimerId s) (noteEvents s))
          @ [\<lparr>timerId = nextTimerId s + length (noteEvents s),
               dueAt = of_int now + jsAdd (jsMul (phraseDuration s) 1000) 50,
               callback = LoopTrigger\<rparr>],
       nextTimerId := nextTimerId s + length (noteEvents s) + 1,
       playbackTimers := map fst (enumerate (nextTimerId s) (noteEvents s))
          @ [nextTimerId s + length (noteEvents s)]\<rparr>"
proof -
  have t: "tracked (s\<lparr>pianoSampler := True\<rparr>)" using assms(2) by (simp add: tracked_def)
  show ?thesis
    using assms(1)
    by (simp add: startPlayback_def Let_def ensureAudio_def clearPlayback_tracked[OF t]
          fold_scheduleNote_eq setTimeout_def phraseDuration_def)
qed


lemma find_last:
  "\<forall>t \<in> set ns. \<not> P t \<Longrightarrow> P l \<Longrightarrow> find P (ns @ [l]) = Some l"
  by (induction ns) simp_all

lemma fireTimer_loop:
  assumes p: "pendingTimers s = ns @ [l]"
    and d: "\<forall>t \<in> set ns. timerId t \<noteq> timerId l"
    and c: "callback l = LoopTrigger"
    and due: "dueAt l \<le> of_int now"
    and play: "isPlaying s"
  shows "fireTimer (timerId l) now s = startPlaybackCall (generatePhrase (s\<lparr>pendingTimers := ns\<rparr>))"
proof -
  have f: "find (\<lambda>t. timerId t = timerId l) (pendingTimers s) = Some l"
    unfolding p using d by (intro find_last) simp_all
  have g: "filter (\<lambda>x. timerId x \<noteq> timerId l) (pendingTimers s) = ns"
    unfolding p using d by simp
  show ?thesis using c due play by (simp add: fireTimer_def f g Let_def loopCallback_def)
qed

lemma fireTimer_first_note:
  assumes p: "pendingTimers s = t # ts"
    and c: "callback t = NoteTrigger ev"
    and due: "dueAt t \<le> of_int now"
    and ready: "isPlaying s" "pianoSampler s" "samplerLoaded s"
  shows "triggered (fireTimer (timerId t) now s) = triggered s @ [(midi ev, duration ev)]"
  using c due ready by (simp add: fireTimer_def p Let_def noteCallback_def)

lemma resume_after_stop:
  assumes c: "consistent s" and l: "samplerLoaded s" and a: "startsAwaiting s \<noteq> 0"
    and n: "noteEvents s = e # es"
    and due: "of_int now + jsMul (time e) 1000 \<le> of_int now'"
  shows "isPlaying (startPlaybackResume now (stopPlayback s))"
    and "pendingTimers (startPlaybackResume now (stopPlayback s)) \<noteq> []"
    and "triggered (fireTimer (nextTimerId s) now' (startPlaybackResume now (stopPlayback s)))
           = triggered s @ [(midi e, duration e)]"
proof -
  define w where "w = (stopPlayback s)\<lparr>startsAwaiting := startsAwaiting s - 1\<rparr>"
  have st: "stopPlayback s = s\<lparr>isPlaying := False, pendingTimers := [], playbackTimers := []\<rparr>"
    using c by (rule stopPlayback_consistent)
  have r: "startPlaybackResume now (stopPlayback s) = startPlayback now w"
    using a by (simp add: startPlaybackResume_def w_def st)
  have wl: "samplerLoaded w" and wt: "tracked w"
    using l by (simp_all add: w_def st tracked_def)
  note e = startPlayback_ready[OF wl wt, of now]
  show "isPlaying (startPlaybackResume now (stopPlayback s))"
    and "pendingTimers (startPlaybackResume now (stopPlayback s)) \<noteq> []"
    unfolding r e by simp_all
  have p: "pendingTimers (startPlayback now w) =
      \<lparr>timerId = nextTimerId s, dueAt = of_int now + jsMul (time e) 1000,
        callback = NoteTrigger e\<rparr>
      # (map (\<lambda>p. \<lparr>timerId = fst p, dueAt = of_int now + jsMul (time (snd p)) 1000,
                     callback = NoteTrigger (snd p)\<rparr>) (enumerate (Suc (nextTimerId s)) es)
          @ [\<lparr>timerId = nextTimerId s + length (noteEvents s),
               dueAt = of_int now + jsAdd (jsMul (phraseDuration w) 1000) 50,
               callback = LoopTrigger\<rparr>])"
    unfolding e by (simp add: w_def st n)
  have "triggered (fireTimer (nextTimerId s) now' (startPlayback now w))
          = triggered (startPlayback now w) @ [(midi e, duration e)]"
    using fireTimer_first_note[OF p, of e now'] due wl
    by (simp add: startPlayback_loaded)
  then show "triggered (fireTimer (nextTimerId s) now' (startPlaybackResume now (stopPlayback s)))
           = triggered s @ [(midi e, duration e)]"
    unfolding r by (simp add: startPlayback_triggered w_def st)
qed

lemma stopPlayback_final:
  assumes c: "consistent s" and a: "startsAwaiting s = 0" and d: "\<forall>e \<in> set es. deferred e"
  shows "run es (stopPlayback s) = stopPlayback s"
proof -
  have st: "stopPlayback s = s\<lparr>isPlaying := False, pendingTimers := [], playbackTimers := []\<rparr>"
    using c by (rule stopPlayback_consistent)
  have h: "handle e (stopPlayback s) = stopPlayback s" if "deferred e" for e
    using that a by (cases e) (simp_all add: st fireTimer_def startPlaybackResume_def)
  show ?thesis using d unfolding run_def by (induction es) (simp_all add: h)
qed

lemma stopPlayback_idempotent:
  "consistent s \<Longrightarrow> stopPlayback (stopPlayback s) = stopPlayback s"
  using stopPlayback_consistent[of s] stopPlayback_consistent[OF consistent_stopPlayback, of s]
  by simp

lemma stopPlayback_idle: "consistent s \<Longrightarrow> \<not> isPlaying s \<Longrightarrow> stopPlayback s = s"
proof -
  assume c: "consistent s" and i: "\<not> isPlaying s"
  have "playbackTimers s = []" using c i by (simp add: consistent_def)
  moreover have "pendingTimers s = []" using c i by (auto simp: consistent_def tracked_def)
  ultimately show ?thesis using stopPlayback_consistent[OF c] i by simp
qed

section \<open>Phrase generator and score encoder\<close>

lemma generateEvents_closed:
  "generateEvents mode meter tempo diff rand k =
     (concat (map (barAt mode (jsDiv 60 tempo) diff rand k) [0, 1, 2, 3]), k + 20)"
  by (cases meter)
     (simp add: generateEvents_def genLoop.simps Let_def getScaleMidiRange_def
        phraseLengthBars_def barAt_def trebleAt_def chordAt_def chordRoot_def beatTime_def
        add.assoc
      del: One_nat_def add_2_eq_Suc add_2_eq_Suc')

lemma spb_60: "jsDiv 60 60 = 1" by (simp add: number_eval)
lemma spb_80: "jsDiv 60 80 = 3 / 4" by (simp add: number_eval)
lemma spb_100: "jsDiv 60 100 = 5404319552844595 / 9007199254740992" by (simp add: number_eval)
lemma spb_120: "jsDiv 60 120 = 1 / 2" by (simp add: number_eval)
lemma spb_140: "jsDiv 60 140 = 7720456504063707 / 18014398509481984" by (simp add: number_eval)

lemmas grid_eval = slotOk_def slotStart_def beatStartOf_def measureStartOf_def
  beatsPerBarXml_def beatTime_def number_eval

lemma grid_60: "gridOk (jsDiv 60 60)"
  unfolding spb_60 gridOk_def list.pred_inject by (intro conjI TrueI; simp add: grid_eval)

lemma grid_80: "gridOk (jsDiv 60 80)"
  unfolding spb_80 gridOk_def list.pred_inject by (intro conjI TrueI; simp add: grid_eval)

lemma grid_100: "gridOk (jsDiv 60 100)"
  unfolding spb_100 gridOk_def list.pred_inject by (intro conjI TrueI; simp add: grid_eval)

lemma grid_120: "gridOk (jsDiv 60 120)"
  unfolding spb_120 gridOk_def list.pred_inject by (intro conjI TrueI; simp add: grid_eval)

lemma grid_140: "gridOk (jsDiv 60 140)"
  unfolding spb_140 gridOk_def list.pred_inject by (intro conjI TrueI; simp add: grid_eval)

lemma gridOk_tempos: "t \<in> set tempos \<Longrightarrow> gridOk (jsDiv 60 t)"
  using grid_60 grid_80 grid_100 grid_120 grid_140 by (auto simp: tempos_def)

lemma gridOk_slot: "gridOk spb \<Longrightarrow> b < 16 \<Longrightarrow> slotOk spb b"
proof -
  assume g: "gridOk spb" and b: "b < 16"
  have "b \<in> set [0, 1, 2, 3, 4, 5, 6, 7, 8, 9, 10, 11, 12, 13, 14, 15 :: nat]"
    using b by simp arith
  then show ?thesis using g unfolding gridOk_def list_all_iff by blast
qed

lemma beat_step:
  assumes "gridOk spb" "b < 16" "0 < b"
  shows "beatTime spb (b - 1) < beatTime spb b"
  using gridOk_slot[OF assms(1,2)] assms(3) by (simp add: slotOk_def Let_def)

lemma beat_strict_mono:
  assumes "gridOk spb"
  shows "j < i \<Longrightarrow> i < 16 \<Longrightarrow> beatTime spb j < beatTime spb i"
proof (induction i)
  case 0
  then show ?case by simp
next
  case (Suc i)
  have s: "beatTime spb i < beatTime spb (Suc i)"
    using beat_step[OF assms, of "Suc i"] Suc.prems by simp
  show ?case
  proof (cases "j = i")
    case True
    then show ?thesis using s by simp
  next
    case False
    then have "j < i" using Suc.prems by simp
    then have "beatTime spb j < beatTime spb i" using Suc.IH Suc.prems by simp
    then show ?thesis using s by simp
  qed
qed

lemma beat_inj:
  assumes "gridOk spb" "i < 16" "j < 16"
  shows "beatTime spb i = beatTime spb j \<longleftrightarrow> i = j"
proof
  assume e: "beatTime spb i = beatTime spb j"
  show "i = j"
  proof (rule ccontr)
    assume "i \<noteq> j"
    then consider "i < j" | "j < i" by linarith
    then show False
    proof cases
      case 1
      then show ?thesis using beat_strict_mono[OF assms(1) 1 assms(3)] e by simp
    next
      case 2
      then show ?thesis using beat_strict_mono[OF assms(1) 2 assms(2)] e by simp
    qed
  qed
qed simp

lemma window_own:
  assumes "gridOk spb" "b < 16" "time e = beatTime spb b"
  shows "inBeatWindow spb (int (b div 4) + 1) (int (b mod 4) + 1) e"
  using gridOk_slot[OF assms(1,2)] assms(3)
  by (simp add: slotOk_def inBeatWindow_def slotStart_def Let_def)

lemma window_earlier:
  assumes "gridOk spb" "b < 16" "j < b" "time e = beatTime spb j"
  shows "\<not> inBeatWindow spb (int (b div 4) + 1) (int (b mod 4) + 1) e"
proof -
  have b0: "0 < b" using assms(3) by simp
  have s: "beatTime spb (b - 1) < slotStart spb b"
    using gridOk_slot[OF assms(1,2)] b0 by (simp add: slotOk_def Let_def)
  have "beatTime spb j \<le> beatTime spb (b - 1)"
  proof (cases "j = b - 1")
    case True then show ?thesis by simp
  next
    case False
    then have "j < b - 1" using assms(3) by simp
    moreover have "b - 1 < 16" using assms(2) by simp
    ultimately have "beatTime spb j < beatTime spb (b - 1)"
      by (rule beat_strict_mono[OF assms(1)])
    then show ?thesis by simp
  qed
  then have "time e < slotStart spb b" using s assms(4) by simp
  then show ?thesis by (simp add: inBeatWindow_def slotStart_def Let_def)
qed

lemma upt_16: "[0..<16] = [0, 1, 2, 3, 4, 5, 6, 7, 8, 9, 10, 11, 12, 13, 14, 15]"
  by (simp add: upt_rec)

lemma trebles_closed:
  "filter (\<lambda>n. staff n = treble) (concat (map (barAt mode spb diff rand k) [0, 1, 2, 3]))
     = map (trebleAt spb rand k) [0..<16]"
  by (simp add: upt_16 barAt_def trebleAt_def chordAt_def filter_empty_conv
      del: One_nat_def add_2_eq_Suc add_2_eq_Suc')

lemma basses_closed:
  "filter (\<lambda>n. staff n = bass) (concat (map (barAt mode spb diff rand k) [0, 1, 2, 3]))
     = concat (map (\<lambda>bar. map (chordAt spb bar) (buildChord (chordRoot mode rand k bar) diff))
         [0, 1, 2, 3])"
  by (simp add: barAt_def trebleAt_def chordAt_def)

lemma trebles_sorted:
  assumes "gridOk spb"
  shows "sort_key time (map (trebleAt spb rand k) [0..<16]) = map (trebleAt spb rand k) [0..<16]"
proof (rule sort_key_id_if_sorted)
  have "sorted (map (beatTime spb) [0..<16])"
    unfolding sorted_iff_nth_mono
  proof (intro allI impI)
    fix i j :: nat
    assume ij: "i \<le> j" and j: "j < length (map (beatTime spb) [0..<16])"
    then have j16: "j < 16" by simp
    show "map (beatTime spb) [0..<16] ! i \<le> map (beatTime spb) [0..<16] ! j"
    proof (cases "i = j")
      case True then show ?thesis by simp
    next
      case False
      then have "i < j" using ij by simp
      then have "beatTime spb i < beatTime spb j" using beat_strict_mono[OF assms] j16 by simp
      then show ?thesis using ij j16 by simp
    qed
  qed
  moreover have "map time (map (trebleAt spb rand k) [0..<16]) = map (beatTime spb) [0..<16]"
    by (simp add: trebleAt_def)
  ultimately show "sorted (map time (map (trebleAt spb rand k) [0..<16]))" by (simp only:)
qed

lemma find_slot:
  assumes "gridOk spb" "b < 16"
  shows "find (inBeatWindow spb (int (b div 4) + 1) (int (b mod 4) + 1))
           (map (trebleAt spb rand k) [0..<16]) = Some (trebleAt spb rand k b)"
proof -
  let ?xs = "map (trebleAt spb rand k) [0..<16]"
  have t: "time (trebleAt spb rand k j) = beatTime spb j" for j by (simp add: trebleAt_def)
  have n: "?xs ! j = trebleAt spb rand k j" if "j < 16" for j using that by simp
  have "b < length ?xs" using assms(2) by simp
  moreover have "inBeatWindow spb (int (b div 4) + 1) (int (b mod 4) + 1) (?xs ! b)"
    using window_own[OF assms t] n[OF assms(2)] by simp
  moreover have "\<forall>j<b. \<not> inBeatWindow spb (int (b div 4) + 1) (int (b mod 4) + 1) (?xs ! j)"
  proof (intro allI impI)
    fix j assume jb: "j < b"
    then have "j < 16" using assms(2) by simp
    then show "\<not> inBeatWindow spb (int (b div 4) + 1) (int (b mod 4) + 1) (?xs ! j)"
      using window_earlier[OF assms jb t] n[of j] by simp
  qed
  ultimately show ?thesis using n[OF assms(2)] unfolding find_Some_iff by metis
qed

lemma midiToXmlPitch_nonneg: "0 \<le> m \<Longrightarrow> midiToXmlPitch m = Inr (xmlPitchOf m)"
  by (simp add: midiToXmlPitch_def jsRem_def)

lemma treble_midi_range:
  "isRandomValue (rand (k + b + (b + 3) div 4)) \<Longrightarrow>
     60 \<le> midi (trebleAt spb rand k b) \<and> midi (trebleAt spb rand k b) \<le> 84"
  by (simp add: trebleAt_def randomInt_treble)

lemma chordRoot_triad: "chordRoot mode rand k bar \<in> {48, 53, 55}"
  by (simp add: chordRoot_def snapToTriad_cases)

lemma treble_slot:
  assumes "gridOk spb" "b < 16" "\<forall>i. isRandomValue (rand i)"
  shows "buildTrebleBeatNote spb (map (trebleAt spb rand k) [0..<16])
           (int (b div 4) + 1) (int (b mod 4) + 1)
         = Inr (trebleNoteXml (xmlPitchOf (midi (trebleAt spb rand k b))))"
proof -
  have "0 \<le> midi (trebleAt spb rand k b)"
    using treble_midi_range[of rand k b spb] assms(3) by simp
  then show ?thesis
    by (simp add: buildTrebleBeatNote_def find_slot[OF assms(1,2)] midiToXmlPitch_nonneg)
qed

lemma treble_slot_bar:
  assumes "gridOk spb" "bar < 4" "beat < 4" "\<forall>i. isRandomValue (rand i)"
  shows "buildTrebleBeatNote spb (map (trebleAt spb rand k) [0..<16])
           (int bar + 1) (int beat + 1)
         = Inr (trebleNoteXml (xmlPitchOf (midi (trebleAt spb rand k (4 * bar + beat)))))"
proof -
  have "4 * bar + beat < 16" using assms(2,3) by simp
  moreover have "(4 * bar + beat) div 4 = bar" "(4 * bar + beat) mod 4 = beat"
    using assms(3) by simp_all
  ultimately show ?thesis using treble_slot[OF assms(1) _ assms(4), of "4 * bar + beat" k] by simp
qed

lemma treble_slots_bar:
  assumes "gridOk spb" "bar < 4" "\<forall>i. isRandomValue (rand i)"
  shows "mapE (buildTrebleBeatNote spb (map (trebleAt spb rand k) [0..<16]) (int bar + 1))
           [1, 2, 3, 4]
         = Inr (map (\<lambda>beat. trebleNoteXml (xmlPitchOf (midi (trebleAt spb rand k (4 * bar + beat)))))
                  [0, 1, 2, 3])"
  using treble_slot_bar[OF assms(1,2) _ assms(3), of 0 k]
    treble_slot_bar[OF assms(1,2) _ assms(3), of 1 k]
    treble_slot_bar[OF assms(1,2) _ assms(3), of 2 k]
    treble_slot_bar[OF assms(1,2) _ assms(3), of 3 k]
  by simp

lemma measureStart_beat: "measureStartOf spb (int bar + 1) = beatTime spb (4 * bar)"
  by (simp add: measureStartOf_def beatsPerBarXml_def beatTime_def mult.commute)

lemma chord_filter:
  assumes "gridOk spb" "bar < 4"
  shows "filter (\<lambda>e. time e = measureStartOf spb (int bar + 1))
           (concat (map (\<lambda>i. map (chordAt spb i) (ch i)) [0, 1, 2, 3]))
         = map (chordAt spb bar) (ch bar)"
proof -
  have f: "filter (\<lambda>e. time e = t) (map (chordAt spb i) xs)
             = (if beatTime spb (4 * i) = t then map (chordAt spb i) xs else [])" for i xs t
    by (simp add: chordAt_def filter_map comp_def)
  have "bar = 0 \<or> bar = 1 \<or> bar = 2 \<or> bar = 3" using assms(2) by arith
  then show ?thesis
    unfolding measureStart_beat
    by (elim disjE) (simp_all add: f beat_inj[OF assms(1)])
qed

lemma bass_chord_events:
  assumes "gridOk spb" "bar < 4"
  shows "filter (\<lambda>e. time e = measureStartOf spb (int bar + 1))
           (sort_key time (filter (\<lambda>n. staff n = bass)
              (concat (map (barAt mode spb diff rand k) [0, 1, 2, 3]))))
         = map (chordAt spb bar) (buildChord (chordRoot mode rand k bar) diff)"
  unfolding sort_key_stable basses_closed by (rule chord_filter[OF assms])

lemma bass_group_events:
  assumes "gridOk spb" "bar < 4"
  shows "filter (\<lambda>e. staff e = bass \<and> time e = measureStartOf spb (int bar + 1))
           (concat (map (barAt mode spb diff rand k) [0, 1, 2, 3]))
         = map (chordAt spb bar) (buildChord (chordRoot mode rand k bar) diff)"
proof -
  have "filter (\<lambda>e. staff e = bass \<and> time e = measureStartOf spb (int bar + 1))
           (concat (map (barAt mode spb diff rand k) [0, 1, 2, 3]))
        = filter (\<lambda>e. time e = measureStartOf spb (int bar + 1))
            (filter (\<lambda>n. staff n = bass) (concat (map (barAt mode spb diff rand k) [0, 1, 2, 3])))"
    by (simp only: filter_filter conj_commute)
  then show ?thesis unfolding basses_closed using chord_filter[OF assms] by simp
qed

lemma chord_midis: "map midi (map (chordAt spb bar) xs) = xs"
  by (induction xs) (simp_all add: chordAt_def)

lemma sort_buildChord:
  "diff \<in> {1, 2, 3} \<Longrightarrow>
     sort (buildChord r diff)
       = (if 2 \<le> diff then [r - 12] else []) @ [r, r + 4, r + 7]
           @ (if 3 \<le> diff then [r + 11] else [])"
  by (auto simp: buildChord_def)

lemma divisions_half: "jsDiv divisions 2 = 2"
  by (simp add: divisions_def number_eval)

lemma bass_notes:
  assumes "0 \<le> a" "0 \<le> b" "0 \<le> c"
  shows "mapE (bassNote 4) (enumerate 0 [a, b, c, a])
         = Inr [bassNoteXml (xmlPitchOf a) BeamBegin, bassNoteXml (xmlPitchOf b) BeamContinue,
                bassNoteXml (xmlPitchOf c) BeamContinue, bassNoteXml (xmlPitchOf a) BeamEnd]"
  using assms by (simp add: bassNote_def midiToXmlPitch_nonneg beamTag_def)

lemma length_four: "length [a, b, c, d] = 4"
  by simp

lemma bass_group:
  assumes "gridOk spb" "bar < 4" "diff \<in> {1, 2, 3}"
  shows "buildBassGroup spb
           (sort_key time (filter (\<lambda>n. staff n = bass)
              (concat (map (barAt mode spb diff rand k) [0, 1, 2, 3]))))
           (int bar + 1)
         = (let ps = sort (buildChord (chordRoot mode rand k bar) diff)
            in Inr [bassNoteXml (xmlPitchOf (ps ! 0)) BeamBegin,
                    bassNoteXml (xmlPitchOf (ps ! 1)) BeamContinue,
                    bassNoteXml (xmlPitchOf (ps ! 2)) BeamContinue,
                    bassNoteXml (xmlPitchOf (ps ! 0)) BeamEnd])"
proof -
  define r where "r = chordRoot mode rand k bar"
  have r: "r \<in> {48, 53, 55}" unfolding r_def by (rule chordRoot_triad)
  have ne: "map (chordAt spb bar) (buildChord r diff) \<noteq> []" by (simp add: buildChord_def)
  consider (d1) "diff = 1" | (d2) "diff = 2" | (d3) "diff = 3" using assms(3) by auto
  then show ?thesis
  proof cases
    case d1
    have s: "sort (buildChord r diff) = [r, r + 4, r + 7]"
      using sort_buildChord[OF assms(3), of r] d1 by simp
    have p: "bassPattern [r, r + 4, r + 7] = [r, r + 4, r + 7, r]"
      using r by (auto simp: bassPattern_def truthyAt_def)
    have "mapE (bassNote 4) (enumerate 0 [r, r + 4, r + 7, r])
         = Inr [bassNoteXml (xmlPitchOf r) BeamBegin, bassNoteXml (xmlPitchOf (r + 4)) BeamContinue,
                bassNoteXml (xmlPitchOf (r + 7)) BeamContinue, bassNoteXml (xmlPitchOf r) BeamEnd]"
      using r by (intro bass_notes) auto
    then show ?thesis
      unfolding buildBassGroup_def Let_def bass_chord_events[OF assms(1,2)] chord_midis
        r_def[symmetric] s p length_four
      using ne by simp
  next
    case d2
    have s: "sort (buildChord r diff) = [r - 12, r, r + 4, r + 7]"
      using sort_buildChord[OF assms(3), of r] d2 by simp
    have p: "bassPattern [r - 12, r, r + 4, r + 7] = [r - 12, r, r + 4, r - 12]"
      using r by (auto simp: bassPattern_def truthyAt_def)
    have "mapE (bassNote 4) (enumerate 0 [r - 12, r, r + 4, r - 12])
         = Inr [bassNoteXml (xmlPitchOf (r - 12)) BeamBegin, bassNoteXml (xmlPitchOf r) BeamContinue,
                bassNoteXml (xmlPitchOf (r + 4)) BeamContinue, bassNoteXml (xmlPitchOf (r - 12)) BeamEnd]"
      using r by (intro bass_notes) auto
    then show ?thesis
      unfolding buildBassGroup_def Let_def bass_chord_events[OF assms(1,2)] chord_midis
        r_def[symmetric] s p length_four
      using ne by simp
  next
    case d3
    have s: "sort (buildChord r diff) = [r - 12, r, r + 4, r + 7, r + 11]"
      using sort_buildChord[OF assms(3), of r] d3 by simp
    have p: "bassPattern [r - 12, r, r + 4, r + 7, r + 11] = [r - 12, r, r + 4, r - 12]"
      using r by (auto simp: bassPattern_def truthyAt_def)
    have "mapE (bassNote 4) (enumerate 0 [r - 12, r, r + 4, r - 12])
         = Inr [bassNoteXml (xmlPitchOf (r - 12)) BeamBegin, bassNoteXml (xmlPitchOf r) BeamContinue,
                bassNoteXml (xmlPitchOf (r + 4)) BeamContinue, bassNoteXml (xmlPitchOf (r - 12)) BeamEnd]"
      using r by (intro bass_notes) auto
    then show ?thesis
      unfolding buildBassGroup_def Let_def bass_chord_events[OF assms(1,2)] chord_midis
        r_def[symmetric] s p length_four
      using ne by simp
  qed
qed

lemma trebles_nth:
  "b < 16 \<Longrightarrow> map (trebleAt spb rand k) [0..<16] ! b = trebleAt spb rand k b"
  by simp

lemma measure_bar:
  assumes "gridOk spb" "bar < 4" "diff \<in> {1, 2, 3}" "\<forall>i. isRandomValue (rand i)"
  shows "buildMeasure spb
           (trebleEventsOf (concat (map (barAt mode spb diff rand k) [0, 1, 2, 3])))
           (bassChordStartsOf (concat (map (barAt mode spb diff rand k) [0, 1, 2, 3])))
           (int bar + 1)
         = (let ps = sort (buildChord (chordRoot mode rand k bar) diff)
            in Inr \<lparr>trebleSlots =
                       map (\<lambda>beat. trebleNoteXml
                              (xmlPitchOf (midi (trebleAt spb rand k (4 * bar + beat)))))
                         [0, 1, 2, 3],
                     bassGroup =
                       [bassNoteXml (xmlPitchOf (ps ! 0)) BeamBegin,
                        bassNoteXml (xmlPitchOf (ps ! 1)) BeamContinue,
                        bassNoteXml (xmlPitchOf (ps ! 2)) BeamContinue,
                        bassNoteXml (xmlPitchOf (ps ! 0)) BeamEnd]\<rparr>)"
  unfolding buildMeasure_def trebleEventsOf_def bassChordStartsOf_def trebles_closed
    trebles_sorted[OF assms(1)] treble_slots_bar[OF assms(1,2,4)]
    bass_group[OF assms(1,2,3)]
  by (simp add: Let_def)

lemma document_closed:
  assumes "gridOk (jsDiv 60 tempo)" "diff \<in> {1, 2, 3}" "\<forall>i. isRandomValue (rand i)"
  shows "buildMusicXmlFromPhrase
           (concat (map (barAt mode (jsDiv 60 tempo) diff rand k) [0, 1, 2, 3])) tempo
         = Inr \<lparr>tempoMark = tempo,
                 measures = map (measureOf mode (jsDiv 60 tempo) diff rand k) [0, 1, 2, 3]\<rparr>"
proof -
  define evs where "evs = concat (map (barAt mode (jsDiv 60 tempo) diff rand k) [0, 1, 2, 3])"
  have m: "buildMeasure (jsDiv 60 tempo) (trebleEventsOf evs) (bassChordStartsOf evs)
             (int bar + 1) = Inr (measureOf mode (jsDiv 60 tempo) diff rand k bar)"
    if "bar < 4" for bar
    unfolding evs_def
    using measure_bar[OF assms(1) that assms(2,3), of mode k] by (simp add: measureOf_def Let_def)
  have m1: "buildMeasure (jsDiv 60 tempo) (trebleEventsOf evs) (bassChordStartsOf evs) 1
              = Inr (measureOf mode (jsDiv 60 tempo) diff rand k 0)"
    using m[of 0] by simp
  have m2: "buildMeasure (jsDiv 60 tempo) (trebleEventsOf evs) (bassChordStartsOf evs) 2
              = Inr (measureOf mode (jsDiv 60 tempo) diff rand k 1)"
    using m[of 1] by simp
  have m3: "buildMeasure (jsDiv 60 tempo) (trebleEventsOf evs) (bassChordStartsOf evs) 3
              = Inr (measureOf mode (jsDiv 60 tempo) diff rand k 2)"
    using m[of 2] by simp
  have m4: "buildMeasure (jsDiv 60 tempo) (trebleEventsOf evs) (bassChordStartsOf evs) 4
              = Inr (measureOf mode (jsDiv 60 tempo) diff rand k 3)"
    using m[of 3] by simp
  have "buildMusicXmlFromPhrase evs tempo
         = Inr \<lparr>tempoMark = tempo,
                 measures = map (measureOf mode (jsDiv 60 tempo) diff rand k) [0, 1, 2, 3]\<rparr>"
    unfolding buildMusicXmlFromPhrase_def Let_def
    by (simp add: m1 m2 m3 m4)
  then show ?thesis unfolding evs_def .
qed

lemma chord_sorted_pitches:
  assumes "gridOk spb" "bar < 4"
  shows "sort (map midi (filter (\<lambda>e. staff e = bass \<and> time e = measureStartOf spb (int bar + 1))
           (concat (map (barAt mode spb diff rand k) [0, 1, 2, 3]))))
         = sort (buildChord (chordRoot mode rand k bar) diff)"
  unfolding bass_group_events[OF assms] chord_midis ..

lemma chord_shape:
  assumes "diff \<in> {1, 2, 3}"
  shows "3 \<le> length (sort (buildChord (chordRoot mode rand k bar) diff))
         \<and> (\<forall>p \<in> set (sort (buildChord (chordRoot mode rand k bar) diff)). p \<noteq> 0)"
  using chordRoot_triad[of mode rand k bar] assms
  by (auto simp: buildChord_def)

text \<open>
  C10, as amended. For every phrase produced by the generator at a listed tempo,
  a difficulty in \<open>{1, 2, 3}\<close> and any random values, the encoder returns a
  document without rests. Each of the sixteen treble slots is filled from the
  treble event of its own beat: that event is the first one, in time order,
  whose time falls in the beat window, and it is written as a pitched quarter
  note. Each of the four bass groups is four beamed eighth notes on the pattern
  lowest, second lowest, third lowest, lowest of the bar's chord (the bass
  events whose time equals the bar start), with the beams begin, continue,
  continue, end. That the window holds no second event is not part of the
  statement.
\<close>

theorem encode_generated_phrase:
  "(tempo \<in> set tempos \<and> diff \<in> {1, 2, 3} \<and> (\<forall>i. isRandomValue (rand i)) \<longrightarrow>
   (let evs = fst (generateEvents mode meter tempo diff rand k);
        spb = jsDiv 60 tempo;
        trebles = filter (\<lambda>e. staff e = treble) evs;
        chord = (\<lambda>bar. sort (map midi
                  (filter (\<lambda>e. staff e = bass \<and> time e = measureStartOf spb (int bar + 1)) evs)))
    in buildMusicXmlFromPhrase evs tempo =
         Inr \<lparr>tempoMark = tempo,
               measures = map (\<lambda>bar.
                 \<lparr>trebleSlots =
                    map (\<lambda>beat. trebleNoteXml (xmlPitchOf (midi (trebles ! (4 * bar + beat)))))
                      [0, 1, 2, 3],
                  bassGroup =
                    [bassNoteXml (xmlPitchOf (chord bar ! 0)) BeamBegin,
                     bassNoteXml (xmlPitchOf (chord bar ! 1)) BeamContinue,
                     bassNoteXml (xmlPitchOf (chord bar ! 2)) BeamContinue,
                     bassNoteXml (xmlPitchOf (chord bar ! 0)) BeamEnd]\<rparr>) [0, 1, 2, 3]\<rparr>
       \<and> length trebles = 16
       \<and> (\<forall>bar<4. \<forall>beat<4.
            find (inBeatWindow spb (int bar + 1) (int beat + 1)) (trebleEventsOf evs)
              = Some (trebles ! (4 * bar + beat))
            \<and> time (trebles ! (4 * bar + beat)) = jsMul (of_nat (4 * bar + beat)) spb)
       \<and> (\<forall>bar<4. 3 \<le> length (chord bar) \<and> sorted (chord bar) \<and> (\<forall>p \<in> set (chord bar). p \<noteq> 0))))
   \<and> pitch (trebleNoteXml xp) = Some xp \<and> noteType (trebleNoteXml xp) = ''quarter''
   \<and> pitch (bassNoteXml xp bm) = Some xp \<and> noteType (bassNoteXml xp bm) = ''eighth''
   \<and> beam (bassNoteXml xp bm) = Some bm"
proof -
  have main: "(let evs = fst (generateEvents mode meter tempo diff rand k);
        spb = jsDiv 60 tempo;
        trebles = filter (\<lambda>e. staff e = treble) evs;
        chord = (\<lambda>bar. sort (map midi
                  (filter (\<lambda>e. staff e = bass \<and> time e = measureStartOf spb (int bar + 1)) evs)))
    in buildMusicXmlFromPhrase evs tempo =
         Inr \<lparr>tempoMark = tempo,
               measures = map (\<lambda>bar.
                 \<lparr>trebleSlots =
                    map (\<lambda>beat. trebleNoteXml (xmlPitchOf (midi (trebles ! (4 * bar + beat)))))
                      [0, 1, 2, 3],
                  bassGroup =
                    [bassNoteXml (xmlPitchOf (chord bar ! 0)) BeamBegin,
                     bassNoteXml (xmlPitchOf (chord bar ! 1)) BeamContinue,
                     bassNoteXml (xmlPitchOf (chord bar ! 2)) BeamContinue,
                     bassNoteXml (xmlPitchOf (chord bar ! 0)) BeamEnd]\<rparr>) [0, 1, 2, 3]\<rparr>
       \<and> length trebles = 16
       \<and> (\<forall>bar<4. \<forall>beat<4.
            find (inBeatWindow spb (int bar + 1) (int beat + 1)) (trebleEventsOf evs)
              = Some (trebles ! (4 * bar + beat))
            \<and> time (trebles ! (4 * bar + beat)) = jsMul (of_nat (4 * bar + beat)) spb)
       \<and> (\<forall>bar<4. 3 \<le> length (chord bar) \<and> sorted (chord bar) \<and> (\<forall>p \<in> set (chord bar). p \<noteq> 0)))"
    if t: "tempo \<in> set tempos" and d: "diff \<in> {1, 2, 3}" and r: "\<forall>i. isRandomValue (rand i)"
  proof -
    define spb where "spb = jsDiv 60 tempo"
    define evs where "evs = concat (map (barAt mode spb diff rand k) [0, 1, 2, 3])"
    have g: "gridOk spb" unfolding spb_def using t by (rule gridOk_tempos)
    have ev: "fst (generateEvents mode meter tempo diff rand k) = evs"
      by (simp add: generateEvents_closed evs_def spb_def)
    have tr: "filter (\<lambda>e. staff e = treble) evs = map (trebleAt spb rand k) [0..<16]"
      unfolding evs_def by (rule trebles_closed)
    have te: "trebleEventsOf evs = map (trebleAt spb rand k) [0..<16]"
      unfolding trebleEventsOf_def tr by (rule trebles_sorted[OF g])
    have ch: "sort (map midi (filter (\<lambda>e. staff e = bass \<and> time e = measureStartOf spb (int bar + 1)) evs))
              = sort (buildChord (chordRoot mode rand k bar) diff)" if "bar < 4" for bar
      unfolding evs_def using g that by (rule chord_sorted_pitches)
    have ch0: "sort (map midi (filter (\<lambda>e. staff e = bass \<and> time e = measureStartOf spb 1) evs))
              = sort (buildChord (chordRoot mode rand k 0) diff)"
      using ch[of 0] by simp
    have ch1: "sort (map midi (filter (\<lambda>e. staff e = bass \<and> time e = measureStartOf spb 2) evs))
              = sort (buildChord (chordRoot mode rand k 1) diff)"
      using ch[of 1] by simp
    have ch2: "sort (map midi (filter (\<lambda>e. staff e = bass \<and> time e = measureStartOf spb 3) evs))
              = sort (buildChord (chordRoot mode rand k 2) diff)"
      using ch[of 2] by simp
    have ch3: "sort (map midi (filter (\<lambda>e. staff e = bass \<and> time e = measureStartOf spb 4) evs))
              = sort (buildChord (chordRoot mode rand k 3) diff)"
      using ch[of 3] by simp
    have doc: "buildMusicXmlFromPhrase evs tempo
         = Inr \<lparr>tempoMark = tempo, measures = map (measureOf mode spb diff rand k) [0, 1, 2, 3]\<rparr>"
      unfolding evs_def spb_def using g d r unfolding spb_def by (rule document_closed)
    have a: "buildMusicXmlFromPhrase evs tempo =
         Inr \<lparr>tempoMark = tempo,
               measures = map (\<lambda>bar.
                 \<lparr>trebleSlots =
                    map (\<lambda>beat. trebleNoteXml (xmlPitchOf
                           (midi (filter (\<lambda>e. staff e = treble) evs ! (4 * bar + beat)))))
                      [0, 1, 2, 3],
                  bassGroup =
                    [bassNoteXml (xmlPitchOf (sort (map midi (filter (\<lambda>e. staff e = bass
                        \<and> time e = measureStartOf spb (int bar + 1)) evs)) ! 0)) BeamBegin,
                     bassNoteXml (xmlPitchOf (sort (map midi (filter (\<lambda>e. staff e = bass
                        \<and> time e = measureStartOf spb (int bar + 1)) evs)) ! 1)) BeamContinue,
                     bassNoteXml (xmlPitchOf (sort (map midi (filter (\<lambda>e. staff e = bass
                        \<and> time e = measureStartOf spb (int bar + 1)) evs)) ! 2)) BeamContinue,
                     bassNoteXml (xmlPitchOf (sort (map midi (filter (\<lambda>e. staff e = bass
                        \<and> time e = measureStartOf spb (int bar + 1)) evs)) ! 0)) BeamEnd]\<rparr>)
                 [0, 1, 2, 3]\<rparr>"
      unfolding doc tr by (simp add: measureOf_def Let_def ch0 ch1 ch2 ch3 numeral_2_eq_2)
    have b: "length (filter (\<lambda>e. staff e = treble) evs) = 16" unfolding tr by simp
    have c: "find (inBeatWindow spb (int bar + 1) (int beat + 1)) (trebleEventsOf evs)
              = Some (filter (\<lambda>e. staff e = treble) evs ! (4 * bar + beat))
            \<and> time (filter (\<lambda>e. staff e = treble) evs ! (4 * bar + beat))
                = jsMul (of_nat (4 * bar + beat)) spb"
      if "bar < 4" "beat < 4" for bar beat
    proof -
      have l: "4 * bar + beat < 16" using that by simp
      have dm: "(4 * bar + beat) div 4 = bar" "(4 * bar + beat) mod 4 = beat" using that by simp_all
      have "find (inBeatWindow spb (int bar + 1) (int beat + 1)) (map (trebleAt spb rand k) [0..<16])
              = Some (trebleAt spb rand k (4 * bar + beat))"
        using find_slot[OF g l, of rand k] dm by simp
      moreover have "time (trebleAt spb rand k (4 * bar + beat)) = jsMul (of_nat (4 * bar + beat)) spb"
        by (simp add: trebleAt_def beatTime_def)
      ultimately show ?thesis unfolding te tr using trebles_nth[OF l, of spb rand k] by simp
    qed
    have e: "3 \<le> length (sort (map midi (filter (\<lambda>e. staff e = bass
                  \<and> time e = measureStartOf spb (int bar + 1)) evs)))
             \<and> sorted (sort (map midi (filter (\<lambda>e. staff e = bass
                  \<and> time e = measureStartOf spb (int bar + 1)) evs)))
             \<and> (\<forall>p \<in> set (sort (map midi (filter (\<lambda>e. staff e = bass
                  \<and> time e = measureStartOf spb (int bar + 1)) evs))). p \<noteq> 0)"
      if "bar < 4" for bar
      unfolding ch[OF that] using chord_shape[OF d, of mode rand k bar] by simp
    show ?thesis
      unfolding Let_def ev spb_def[symmetric] using a b c e by blast
  qed
  have f: "pitch (trebleNoteXml xp) = Some xp \<and> noteType (trebleNoteXml xp) = ''quarter''
   \<and> pitch (bassNoteXml xp bm) = Some xp \<and> noteType (bassNoteXml xp bm) = ''eighth''
   \<and> beam (bassNoteXml xp bm) = Some bm"
    by (simp add: trebleNoteXml_def bassNoteXml_def)
  show ?thesis using main f by blast
qed

lemma barAt_members:
  "e \<in> set (barAt mode spb diff rand k bar) \<Longrightarrow>
     (\<exists>b. e = trebleAt spb rand k b)
     \<or> (\<exists>m \<in> set (buildChord (chordRoot mode rand k bar) diff). e = chordAt spb bar m)"
  by (auto simp: barAt_def)

lemma buildChord_offsets:
  "m \<in> set (buildChord r diff) \<Longrightarrow> \<exists>off \<in> {0, 4, 7, - 12, 11}. m = r + off"
  by (auto simp: buildChord_def split: if_splits)

lemma barAt_mode: "barAt mode spb diff rand k bar = barAt mode' spb diff rand k bar"
  by (simp add: barAt_def chordRoot_def snapToTriad_cases)

text \<open>
  C8. For every mode and every difficulty (and every tempo), when the random
  values are what \<^verbatim>\<open>Math.random()\<close> can return, all generated treble pitches
  lie between \<open>60\<close> and \<open>84\<close>; every generated bass pitch is \<open>r + off\<close> for a
  root \<open>r\<close> in \<open>{48, 53, 55}\<close> and an offset in \<open>{0, 4, 7, -12, 11}\<close>. The
  drawn ranges (treble \<open>60\<close> to \<open>84\<close>, bass seed \<open>36\<close> to \<open>60\<close>) and the
  triad set are the same for all modes, and so is the generated phrase.
\<close>

theorem generated_pitch_ranges:
  "((\<forall>i. isRandomValue (rand i)) \<longrightarrow>
      (\<forall>e \<in> set (fst (generateEvents mode meter tempo diff rand k)).
         staff e = treble \<longrightarrow> 60 \<le> midi e \<and> midi e \<le> 84))
   \<and> (\<forall>e \<in> set (fst (generateEvents mode meter tempo diff rand k)).
         staff e = bass \<longrightarrow> (\<exists>r \<in> {48, 53, 55}. \<exists>off \<in> {0, 4, 7, - 12, 11}. midi e = r + off))
   \<and> getScaleMidiRange mode treble = (60, 84) \<and> getScaleMidiRange mode bass = (36, 60)
   \<and> (isRandomValue x \<longrightarrow>
         60 \<le> randomInt x 60 84 \<and> randomInt x 60 84 \<le> 84
         \<and> 36 \<le> randomInt x 36 60 \<and> randomInt x 36 60 \<le> 60)
   \<and> set triads = {48, 53, 55} \<and> snapToTriad m mode = snapToTriad m mode'
   \<and> getScaleMidiRange mode st = getScaleMidiRange mode' st
   \<and> generateEvents mode meter tempo diff rand k = generateEvents mode' meter tempo diff rand k"
proof -
  let ?evs = "fst (generateEvents mode meter tempo diff rand k)"
  have mem: "\<exists>bar. e \<in> set (barAt mode (jsDiv 60 tempo) diff rand k bar)" if "e \<in> set ?evs" for e
    using that by (auto simp: generateEvents_closed)
  have a: "60 \<le> midi e \<and> midi e \<le> 84"
    if r: "\<forall>i. isRandomValue (rand i)" and e: "e \<in> set ?evs" and s: "staff e = treble" for e
  proof -
    obtain bar where "e \<in> set (barAt mode (jsDiv 60 tempo) diff rand k bar)" using mem[OF e] by blast
    then have "\<exists>b. e = trebleAt (jsDiv 60 tempo) rand k b"
      using barAt_members s by (fastforce simp: chordAt_def)
    then obtain b where "e = trebleAt (jsDiv 60 tempo) rand k b" by blast
    then show ?thesis using treble_midi_range[of rand k b] r by simp
  qed
  have b: "\<exists>r \<in> {48, 53, 55}. \<exists>off \<in> {0, 4, 7, - 12, 11}. midi e = r + off"
    if e: "e \<in> set ?evs" and s: "staff e = bass" for e
  proof -
    obtain bar where "e \<in> set (barAt mode (jsDiv 60 tempo) diff rand k bar)" using mem[OF e] by blast
    then have "\<exists>m \<in> set (buildChord (chordRoot mode rand k bar) diff). e = chordAt (jsDiv 60 tempo) bar m"
      using barAt_members s by (fastforce simp: trebleAt_def)
    then obtain m where m: "m \<in> set (buildChord (chordRoot mode rand k bar) diff)"
      and em: "e = chordAt (jsDiv 60 tempo) bar m" by blast
    have "midi e = m" using em by (simp add: chordAt_def)
    then show ?thesis using buildChord_offsets[OF m] chordRoot_triad[of mode rand k bar] by blast
  qed
  have c: "getScaleMidiRange mode treble = (60, 84)" "getScaleMidiRange mode bass = (36, 60)"
    "getScaleMidiRange mode st = getScaleMidiRange mode' st"
    by (simp_all add: getScaleMidiRange_def)
  have d: "isRandomValue x \<longrightarrow>
         60 \<le> randomInt x 60 84 \<and> randomInt x 60 84 \<le> 84
         \<and> 36 \<le> randomInt x 36 60 \<and> randomInt x 36 60 \<le> 60"
    using randomInt_treble randomInt_bass by blast
  have e: "set triads = {48, 53, 55}" "snapToTriad m mode = snapToTriad m mode'"
    by (simp_all add: triads_def snapToTriad_cases)
  have f: "generateEvents mode meter tempo diff rand k = generateEvents mode' meter tempo diff rand k"
    unfolding generateEvents_closed using barAt_mode[of mode _ diff rand k _ mode'] by simp
  show ?thesis using a b c d e f by blast
qed

lemma buildChord_length:
  "length (buildChord r diff) = 3 + (if 2 \<le> diff then 1 else 0) + (if 3 \<le> diff then 1 else 0)"
  by (simp add: buildChord_def)

text \<open>
  C3. For every mode, the meter 4/4, every listed tempo and every difficulty,
  the generator produces \<open>beatsPerBar * 4 = 16\<close> treble events and four
  bass-chord groups, one per bar at the time of the bar's first beat: the bass
  events at that time number \<open>3\<close>, plus one when the difficulty is at least
  \<open>2\<close>, plus one when it is at least \<open>3\<close>; they all have the duration
  \<open>secondsPerBeat * beatsPerBar\<close>; every bass event belongs to one of the four
  groups, and the four bar-start times are distinct.
\<close>

theorem generate_counts:
  "tempo \<in> set tempos \<longrightarrow>
   (let evs = fst (generateEvents mode meter tempo diff rand k);
        spb = jsDiv 60 tempo;
        n = beatsPerBarOf meter
    in length (filter (\<lambda>e. staff e = treble) evs) = n * 4 \<and> n * 4 = 16
       \<and> (\<forall>bar<4.
            length (filter (\<lambda>e. staff e = bass \<and> time e = jsMul (of_nat (bar * n)) spb) evs)
              = 3 + (if 2 \<le> diff then 1 else 0) + (if 3 \<le> diff then 1 else 0)
            \<and> (\<forall>e \<in> set (filter (\<lambda>e. staff e = bass \<and> time e = jsMul (of_nat (bar * n)) spb) evs).
                  duration e = jsMul spb (of_nat n) \<and> isChord e))
       \<and> (\<forall>e \<in> set evs. staff e = bass \<longrightarrow> (\<exists>bar<4. time e = jsMul (of_nat (bar * n)) spb))
       \<and> card (time ` {e \<in> set evs. staff e = bass}) = 4)"
proof
  assume t: "tempo \<in> set tempos"
  define spb where "spb = jsDiv 60 tempo"
  define evs where "evs = concat (map (barAt mode spb diff rand k) [0, 1, 2, 3])"
  define ch where "ch = (\<lambda>bar. buildChord (chordRoot mode rand k bar) diff)"
  have g: "gridOk spb" unfolding spb_def using t by (rule gridOk_tempos)
  have ev: "fst (generateEvents mode meter tempo diff rand k) = evs"
    by (simp add: generateEvents_closed evs_def spb_def)
  have n: "beatsPerBarOf meter = 4" by (cases meter) simp
  have tr: "length (filter (\<lambda>e. staff e = treble) evs) = 16"
    unfolding evs_def trebles_closed by simp
  have bt: "jsMul (of_nat (bar * 4)) spb = measureStartOf spb (int bar + 1)" for bar
    by (simp add: measureStart_beat beatTime_def mult.commute)
  have grp: "filter (\<lambda>e. staff e = bass \<and> time e = jsMul (of_nat (bar * 4)) spb) evs
               = map (chordAt spb bar) (ch bar)" if "bar < 4" for bar
    unfolding bt evs_def ch_def using g that by (rule bass_group_events)
  have a: "length (filter (\<lambda>e. staff e = bass \<and> time e = jsMul (of_nat (bar * 4)) spb) evs)
              = 3 + (if 2 \<le> diff then 1 else 0) + (if 3 \<le> diff then 1 else 0)
            \<and> (\<forall>e \<in> set (filter (\<lambda>e. staff e = bass \<and> time e = jsMul (of_nat (bar * 4)) spb) evs).
                  duration e = jsMul spb 4 \<and> isChord e)" if "bar < 4" for bar
    unfolding grp[OF that] by (auto simp: ch_def buildChord_length chordAt_def)
  have bs: "filter (\<lambda>n. staff n = bass) evs
              = concat (map (\<lambda>bar. map (chordAt spb bar) (ch bar)) [0, 1, 2, 3])"
    unfolding evs_def ch_def by (rule basses_closed)
  have tm: "time (chordAt spb bar m) = jsMul (of_nat (bar * 4)) spb" for bar m
    by (simp add: chordAt_def beatTime_def mult.commute)
  have b: "\<exists>bar<4. time e = jsMul (of_nat (bar * 4)) spb" if "e \<in> set evs" "staff e = bass" for e
  proof -
    have "e \<in> set (filter (\<lambda>n. staff n = bass) evs)" using that by simp
    then have "e \<in> set (concat (map (\<lambda>bar. map (chordAt spb bar) (ch bar)) [0, 1, 2, 3 :: nat]))"
      unfolding bs .
    then obtain bar m where "bar \<in> {0, 1, 2, 3 :: nat}" "e = chordAt spb bar m" by auto
    then have "bar < 4 \<and> time e = jsMul (of_nat (bar * 4)) spb" using tm by auto
    then show ?thesis by blast
  qed
  have ne: "ch bar \<noteq> []" for bar by (simp add: ch_def buildChord_def)
  have img: "time ` {e \<in> set evs. staff e = bass}
               = {beatTime spb 0, beatTime spb 4, beatTime spb 8, beatTime spb 12}"
  proof -
    have s: "{e \<in> set evs. staff e = bass} = set (filter (\<lambda>n. staff n = bass) evs)" by auto
    have u: "set (filter (\<lambda>n. staff n = bass) evs)
               = chordAt spb 0 ` set (ch 0) \<union> chordAt spb 1 ` set (ch 1)
                 \<union> chordAt spb 2 ` set (ch 2) \<union> chordAt spb 3 ` set (ch 3)"
      unfolding bs by auto
    have i: "time ` chordAt spb bar ` set (ch bar) = {beatTime spb (4 * bar)}" for bar
      using ne[of bar] by (simp add: image_image chordAt_def image_constant_conv)
    show ?thesis
      unfolding s u image_Un i by auto
  qed
  have cd: "card (time ` {e \<in> set evs. staff e = bass}) = 4"
    unfolding img by (simp add: beat_inj[OF g])
  show "let evs = fst (generateEvents mode meter tempo diff rand k);
        spb = jsDiv 60 tempo;
        n = beatsPerBarOf meter
    in length (filter (\<lambda>e. staff e = treble) evs) = n * 4 \<and> n * 4 = 16
       \<and> (\<forall>bar<4.
            length (filter (\<lambda>e. staff e = bass \<and> time e = jsMul (of_nat (bar * n)) spb) evs)
              = 3 + (if 2 \<le> diff then 1 else 0) + (if 3 \<le> diff then 1 else 0)
            \<and> (\<forall>e \<in> set (filter (\<lambda>e. staff e = bass \<and> time e = jsMul (of_nat (bar * n)) spb) evs).
                  duration e = jsMul spb (of_nat n) \<and> isChord e))
       \<and> (\<forall>e \<in> set evs. staff e = bass \<longrightarrow> (\<exists>bar<4. time e = jsMul (of_nat (bar * n)) spb))
       \<and> card (time ` {e \<in> set evs. staff e = bass}) = 4"
    unfolding Let_def ev n spb_def[symmetric] using tr a b cd by simp
qed

lemma mapE_Inr:
  "mapE f xs = Inr ys \<Longrightarrow> length ys = length xs \<and> (\<forall>y \<in> set ys. \<exists>x \<in> set xs. f x = Inr y)"
proof (induction xs arbitrary: ys)
  case Nil
  then show ?case by simp
next
  case (Cons x xs)
  from Cons.prems obtain y ys' where fx: "f x = Inr y" and m: "mapE f xs = Inr ys'"
    and ys: "ys = y # ys'"
    by (auto split: sum.splits)
  from Cons.IH[OF m] fx ys show ?case by auto
qed

lemma mapE_total:
  "(\<forall>x \<in> set xs. \<exists>y. f x = Inr y) \<Longrightarrow> \<exists>ys. mapE f xs = Inr ys"
  by (induction xs) auto

lemma bassNote_fields:
  "bassNote n im = Inr y \<Longrightarrow>
     xmlDuration y = 2 \<and> noteType y = ''eighth'' \<and> xmlStaff y = 2 \<and> pitch y \<noteq> None"
  by (auto simp: bassNote_def bassNoteXml_def divisions_half split: sum.splits)

lemma bassRest_fields:
  "xmlDuration bassRest = 2 \<and> noteType bassRest = ''eighth'' \<and> xmlStaff bassRest = 2
   \<and> pitch bassRest = None"
  by (simp add: bassRest_def divisions_half)

lemma bassPattern_length: "2 \<le> length (bassPattern ps) \<and> length (bassPattern ps) \<le> 4"
  by (simp add: bassPattern_def)

lemma sum_all_two:
  "(\<forall>n \<in> set g. xmlDuration n = 2) \<Longrightarrow> sum_list (map xmlDuration g) = 2 * of_nat (length g)"
  by (induction g) (simp_all add: algebra_simps)

lemma buildBassGroup_shape:
  assumes "buildBassGroup spb bs bar = Inr g"
  shows "2 \<le> length g \<and> length g \<le> 4
         \<and> (\<forall>n \<in> set g. xmlDuration n = 2 \<and> noteType n = ''eighth'' \<and> xmlStaff n = 2)"
proof (cases "filter (\<lambda>e. time e = measureStartOf spb bar) bs = []")
  case True
  then have "g = replicate 4 bassRest" using assms by (simp add: buildBassGroup_def)
  then show ?thesis using bassRest_fields by simp
next
  case False
  let ?pat = "bassPattern (sort (map midi (filter (\<lambda>e. time e = measureStartOf spb bar) bs)))"
  have m: "mapE (bassNote (length ?pat)) (enumerate 0 ?pat) = Inr g"
    using assms False by (simp add: buildBassGroup_def Let_def)
  have l: "length g = length ?pat" using mapE_Inr[OF m] by simp
  have f: "\<forall>n \<in> set g. xmlDuration n = 2 \<and> noteType n = ''eighth'' \<and> xmlStaff n = 2"
    using mapE_Inr[OF m] bassNote_fields by blast
  show ?thesis using l f bassPattern_length[of "sort (map midi (filter (\<lambda>e. time e = measureStartOf spb bar) bs))"]
    by simp
qed

lemma buildBassGroup_rests:
  "\<forall>e \<in> set bs. time e \<noteq> measureStartOf spb bar \<Longrightarrow>
     buildBassGroup spb bs bar = Inr (replicate 4 bassRest)"
  by (simp add: buildBassGroup_def filter_empty_conv)

lemma buildMeasure_parts:
  "buildMeasure spb ts bs bar = Inr m \<Longrightarrow>
     mapE (buildTrebleBeatNote spb ts bar) [1, 2, 3, 4] = Inr (trebleSlots m)
     \<and> buildBassGroup spb bs bar = Inr (bassGroup m)"
  by (auto simp: buildMeasure_def split: sum.splits)

lemma document_parts:
  assumes "buildMusicXmlFromPhrase events tempo = Inr doc"
  shows "length (measures doc) = 4
         \<and> (\<forall>m \<in> set (measures doc). \<exists>bar.
               buildMeasure (jsDiv 60 tempo) (trebleEventsOf events) (bassChordStartsOf events) bar
                 = Inr m)"
proof -
  obtain ms where ms: "mapE (buildMeasure (jsDiv 60 tempo) (trebleEventsOf events)
                         (bassChordStartsOf events)) [1, 2, 3, 4] = Inr ms"
    and d: "doc = \<lparr>tempoMark = tempo, measures = ms\<rparr>"
    using assms by (auto simp: buildMusicXmlFromPhrase_def Let_def split: sum.splits)
  show ?thesis using mapE_Inr[OF ms] d by auto
qed

lemma midiToXmlPitch_total: "0 \<le> m \<Longrightarrow> \<exists>p. midiToXmlPitch m = Inr p"
  by (simp add: midiToXmlPitch_nonneg)

lemma treble_note_total:
  assumes "\<forall>e \<in> set ts. 0 \<le> midi e"
  shows "\<exists>y. buildTrebleBeatNote spb ts bar beat = Inr y"
proof (cases "find (inBeatWindow spb bar beat) ts")
  case None
  then show ?thesis by (simp add: buildTrebleBeatNote_def)
next
  case (Some ev)
  then have "ev \<in> set ts" by (auto simp: find_Some_iff)
  then have "0 \<le> midi ev" using assms by simp
  then show ?thesis using Some by (simp add: buildTrebleBeatNote_def midiToXmlPitch_nonneg)
qed

lemma bassPattern_members:
  "ps \<noteq> [] \<Longrightarrow> set (bassPattern ps) \<subseteq> set ps"
  by (auto simp: bassPattern_def truthyAt_def)

lemma bass_group_total:
  assumes "\<forall>e \<in> set bs. 0 \<le> midi e"
  shows "\<exists>g. buildBassGroup spb bs bar = Inr g"
proof (cases "filter (\<lambda>e. time e = measureStartOf spb bar) bs = []")
  case True
  then show ?thesis by (simp add: buildBassGroup_def)
next
  case False
  let ?ps = "sort (map midi (filter (\<lambda>e. time e = measureStartOf spb bar) bs))"
  have "?ps \<noteq> []" using False by (metis length_0_conv length_map length_sort)
  then have "set (bassPattern ?ps) \<subseteq> set ?ps" by (rule bassPattern_members)
  moreover have "\<forall>p \<in> set ?ps. 0 \<le> p" using assms by auto
  ultimately have nn: "\<forall>p \<in> set (bassPattern ?ps). 0 \<le> p" by blast
  have "\<forall>x \<in> set (enumerate 0 (bassPattern ?ps)). \<exists>y. bassNote (length (bassPattern ?ps)) x = Inr y"
  proof
    fix x assume "x \<in> set (enumerate 0 (bassPattern ?ps))"
    then have "snd x \<in> snd ` set (enumerate 0 (bassPattern ?ps))" by (rule imageI)
    then have "snd x \<in> set (map snd (enumerate 0 (bassPattern ?ps)))" by (simp only: set_map)
    then have "snd x \<in> set (bassPattern ?ps)" by (simp only: map_snd_enumerate)
    then have "0 \<le> snd x" using nn by simp
    then show "\<exists>y. bassNote (length (bassPattern ?ps)) x = Inr y"
      by (simp add: bassNote_def midiToXmlPitch_nonneg)
  qed
  then have "\<exists>g. mapE (bassNote (length (bassPattern ?ps))) (enumerate 0 (bassPattern ?ps)) = Inr g"
    by (rule mapE_total)
  then show ?thesis using False by (simp add: buildBassGroup_def Let_def)
qed

lemma document_total:
  assumes "\<forall>e \<in> set events. 0 \<le> midi e"
  shows "\<exists>doc. buildMusicXmlFromPhrase events tempo = Inr doc"
proof -
  have t: "\<forall>e \<in> set (trebleEventsOf events). 0 \<le> midi e"
    using assms by (simp add: trebleEventsOf_def)
  have b: "\<forall>e \<in> set (bassChordStartsOf events). 0 \<le> midi e"
    using assms by (simp add: bassChordStartsOf_def)
  have "\<exists>m. buildMeasure (jsDiv 60 tempo) (trebleEventsOf events) (bassChordStartsOf events) bar
             = Inr m" for bar
  proof -
    have "\<exists>ys. mapE (buildTrebleBeatNote (jsDiv 60 tempo) (trebleEventsOf events) bar) [1, 2, 3, 4]
                 = Inr ys"
      using treble_note_total[OF t] by (intro mapE_total) blast
    moreover have "\<exists>g. buildBassGroup (jsDiv 60 tempo) (bassChordStartsOf events) bar = Inr g"
      using bass_group_total[OF b] by blast
    ultimately show ?thesis by (auto simp: buildMeasure_def)
  qed
  then have "\<exists>ms. mapE (buildMeasure (jsDiv 60 tempo) (trebleEventsOf events)
                          (bassChordStartsOf events)) [1, 2, 3, 4] = Inr ms"
    by (intro mapE_total) blast
  then show ?thesis by (auto simp: buildMusicXmlFromPhrase_def Let_def)
qed

lemma mapE_nth:
  "mapE f xs = Inr ys \<Longrightarrow> i < length xs \<Longrightarrow> f (xs ! i) = Inr (ys ! i)"
proof (induction xs arbitrary: ys i)
  case Nil
  then show ?case by simp
next
  case (Cons x xs)
  from Cons.prems(1) obtain y ys' where fx: "f x = Inr y" and m: "mapE f xs = Inr ys'"
    and ys: "ys = y # ys'"
    by (auto split: sum.splits)
  show ?case
  proof (cases i)
    case 0
    then show ?thesis using fx ys by simp
  next
    case (Suc j)
    then have "j < length xs" using Cons.prems(2) by simp
    then have "f (xs ! j) = Inr (ys' ! j)" using Cons.IH[OF m] by simp
    then show ?thesis using Suc ys by simp
  qed
qed

lemma mapE_map:
  "mapE f xs = Inr ys \<Longrightarrow> (\<forall>x \<in> set xs. \<forall>y. f x = Inr y \<longrightarrow> y = h x) \<Longrightarrow> ys = map h xs"
proof (induction xs arbitrary: ys)
  case Nil
  then show ?case by simp
next
  case (Cons x xs)
  from Cons.prems(1) obtain y ys' where fx: "f x = Inr y" and m: "mapE f xs = Inr ys'"
    and ys: "ys = y # ys'"
    by (auto split: sum.splits)
  have "ys' = map h xs" using Cons.IH[OF m] Cons.prems(2) by simp
  moreover have "y = h x" using Cons.prems(2) fx by simp
  ultimately show ?case using ys by simp
qed

lemma bassNote_value:
  "bassNote n im = Inr y \<Longrightarrow> y = bassNoteXml (xmlPitchOf (snd im)) (beamTag n (fst im))"
  by (auto simp: bassNote_def midiToXmlPitch_def split: sum.splits if_splits)

lemma buildBassGroup_notes:
  assumes "buildBassGroup spb bs bar = Inr g"
    and "filter (\<lambda>e. time e = measureStartOf spb bar) bs \<noteq> []"
  shows "g = map (\<lambda>im. bassNoteXml (xmlPitchOf (snd im))
                   (beamTag (length (bassPattern (sort (map midi
                      (filter (\<lambda>e. time e = measureStartOf spb bar) bs))))) (fst im)))
               (enumerate 0 (bassPattern (sort (map midi
                      (filter (\<lambda>e. time e = measureStartOf spb bar) bs)))))"
proof -
  let ?pat = "bassPattern (sort (map midi (filter (\<lambda>e. time e = measureStartOf spb bar) bs)))"
  have m: "mapE (bassNote (length ?pat)) (enumerate 0 ?pat) = Inr g"
    using assms by (simp add: buildBassGroup_def Let_def)
  show ?thesis using bassNote_value by (intro mapE_map[OF m]) blast
qed

lemma document_bar:
  assumes "buildMusicXmlFromPhrase events tempo = Inr doc" and "bar < 4"
  shows "buildBassGroup (jsDiv 60 tempo) (bassChordStartsOf events) (int bar + 1)
           = Inr (bassGroup (measures doc ! bar))"
proof -
  obtain ms where ms: "mapE (buildMeasure (jsDiv 60 tempo) (trebleEventsOf events)
                         (bassChordStartsOf events)) [1, 2, 3, 4] = Inr ms"
    and d: "doc = \<lparr>tempoMark = tempo, measures = ms\<rparr>"
    using assms(1) by (auto simp: buildMusicXmlFromPhrase_def Let_def split: sum.splits)
  have n: "[1, 2, 3, 4 :: int] ! bar = int bar + 1"
  proof -
    have "bar = 0 \<or> bar = 1 \<or> bar = 2 \<or> bar = 3" using assms(2) by arith
    then show ?thesis by (elim disjE) simp_all
  qed
  have "buildMeasure (jsDiv 60 tempo) (trebleEventsOf events) (bassChordStartsOf events)
          ([1, 2, 3, 4] ! bar) = Inr (ms ! bar)"
    using assms(2) by (intro mapE_nth[OF ms]) simp
  then show ?thesis using buildMeasure_parts d n by simp
qed


lemma chordEvents_empty:
  "filter (\<lambda>e. time e = t) (bassChordStartsOf events) = []
     \<longleftrightarrow> (\<forall>e \<in> set events. staff e = bass \<longrightarrow> time e \<noteq> t)"
  by (auto simp: bassChordStartsOf_def filter_empty_conv)

text \<open>
  C2, as amended. For every phrase and tempo for which the encoder returns a
  document (it does whenever no pitch is negative), the document has four
  measures, and for each bar: when no bass event of the phrase starts exactly
  at the bar start, the bass group is four eighth rests, \<open>8\<close> divisions;
  otherwise it is the notes of the pattern of the bar's chord. In both cases
  the group has two to four entries of \<open>2\<close> divisions each (eighths, at
  \<open>divisions = 4\<close>), so its durations sum to twice the number of entries, at
  most \<open>8\<close> divisions: half of a 4/4 bar of \<open>16\<close> divisions.
\<close>

theorem bass_group_durations:
  "(buildMusicXmlFromPhrase events tempo = Inr doc \<longrightarrow>
      length (measures doc) = 4
      \<and> (\<forall>bar < 4.
            let g = bassGroup (measures doc ! bar);
                measureStart = measureStartOf (jsDiv 60 tempo) (int bar + 1);
                chordEvents = filter (\<lambda>e. time e = measureStart) (bassChordStartsOf events);
                pattern = bassPattern (sort (map midi chordEvents))
            in (chordEvents = [] \<longleftrightarrow> (\<forall>e \<in> set events. staff e = bass \<longrightarrow> time e \<noteq> measureStart))
               \<and> (chordEvents = [] \<longrightarrow> g = replicate 4 bassRest)
               \<and> (chordEvents \<noteq> [] \<longrightarrow>
                    g = map (\<lambda>im. bassNoteXml (xmlPitchOf (snd im))
                                     (beamTag (length pattern) (fst im)))
                          (enumerate 0 pattern))
               \<and> 2 \<le> length g \<and> length g \<le> 4
               \<and> (\<forall>n \<in> set g. xmlDuration n = 2 \<and> noteType n = ''eighth'')
               \<and> sum_list (map xmlDuration g) = 2 * of_nat (length g)
               \<and> sum_list (map xmlDuration g) \<le> 8
               \<and> (chordEvents = [] \<longrightarrow> sum_list (map xmlDuration g) = 8)))
   \<and> ((\<forall>e \<in> set events. 0 \<le> midi e) \<longrightarrow> (\<exists>d. buildMusicXmlFromPhrase events tempo = Inr d))
   \<and> divisions * of_int beatsPerBarXml = 16"
proof -
  have a: "length (measures doc) = 4
      \<and> (\<forall>bar < 4.
            let g = bassGroup (measures doc ! bar);
                measureStart = measureStartOf (jsDiv 60 tempo) (int bar + 1);
                chordEvents = filter (\<lambda>e. time e = measureStart) (bassChordStartsOf events);
                pattern = bassPattern (sort (map midi chordEvents))
            in (chordEvents = [] \<longleftrightarrow> (\<forall>e \<in> set events. staff e = bass \<longrightarrow> time e \<noteq> measureStart))
               \<and> (chordEvents = [] \<longrightarrow> g = replicate 4 bassRest)
               \<and> (chordEvents \<noteq> [] \<longrightarrow>
                    g = map (\<lambda>im. bassNoteXml (xmlPitchOf (snd im))
                                     (beamTag (length pattern) (fst im)))
                          (enumerate 0 pattern))
               \<and> 2 \<le> length g \<and> length g \<le> 4
               \<and> (\<forall>n \<in> set g. xmlDuration n = 2 \<and> noteType n = ''eighth'')
               \<and> sum_list (map xmlDuration g) = 2 * of_nat (length g)
               \<and> sum_list (map xmlDuration g) \<le> 8
               \<and> (chordEvents = [] \<longrightarrow> sum_list (map xmlDuration g) = 8))"
    if d: "buildMusicXmlFromPhrase events tempo = Inr doc"
  proof -
    have len: "length (measures doc) = 4" using document_parts[OF d] by simp
    have each: "let g = bassGroup (measures doc ! bar);
                measureStart = measureStartOf (jsDiv 60 tempo) (int bar + 1);
                chordEvents = filter (\<lambda>e. time e = measureStart) (bassChordStartsOf events);
                pattern = bassPattern (sort (map midi chordEvents))
            in (chordEvents = [] \<longleftrightarrow> (\<forall>e \<in> set events. staff e = bass \<longrightarrow> time e \<noteq> measureStart))
               \<and> (chordEvents = [] \<longrightarrow> g = replicate 4 bassRest)
               \<and> (chordEvents \<noteq> [] \<longrightarrow>
                    g = map (\<lambda>im. bassNoteXml (xmlPitchOf (snd im))
                                     (beamTag (length pattern) (fst im)))
                          (enumerate 0 pattern))
               \<and> 2 \<le> length g \<and> length g \<le> 4
               \<and> (\<forall>n \<in> set g. xmlDuration n = 2 \<and> noteType n = ''eighth'')
               \<and> sum_list (map xmlDuration g) = 2 * of_nat (length g)
               \<and> sum_list (map xmlDuration g) \<le> 8
               \<and> (chordEvents = [] \<longrightarrow> sum_list (map xmlDuration g) = 8)"
      if b: "bar < 4" for bar
    proof -
      define g where "g = bassGroup (measures doc ! bar)"
      define ce where "ce = filter (\<lambda>e. time e = measureStartOf (jsDiv 60 tempo) (int bar + 1))
                              (bassChordStartsOf events)"
      have bg: "buildBassGroup (jsDiv 60 tempo) (bassChordStartsOf events) (int bar + 1) = Inr g"
        unfolding g_def using d b by (rule document_bar)
      note sh = buildBassGroup_shape[OF bg]
      have s: "sum_list (map xmlDuration g) = 2 * of_nat (length g)"
        using sh by (intro sum_all_two) blast
      have le: "sum_list (map xmlDuration g) \<le> 8" using s sh by simp
      have e: "ce = [] \<longleftrightarrow> (\<forall>e \<in> set events. staff e = bass
                  \<longrightarrow> time e \<noteq> measureStartOf (jsDiv 60 tempo) (int bar + 1))"
        unfolding ce_def by (rule chordEvents_empty)
      have r: "g = replicate 4 bassRest" if "ce = []"
        using bg that by (simp add: buildBassGroup_def ce_def)
      have r8: "sum_list (map xmlDuration g) = 8" if "ce = []"
        using r[OF that] s by simp
      have n: "g = map (\<lambda>im. bassNoteXml (xmlPitchOf (snd im))
                           (beamTag (length (bassPattern (sort (map midi ce)))) (fst im)))
                   (enumerate 0 (bassPattern (sort (map midi ce))))" if "ce \<noteq> []"
        unfolding ce_def using that by (intro buildBassGroup_notes[OF bg]) (simp add: ce_def)
      show ?thesis
        unfolding Let_def g_def[symmetric] ce_def[symmetric] using e r n sh s le r8 by blast
    qed
    show ?thesis using len each by blast
  qed
  have b: "(\<forall>e \<in> set events. 0 \<le> midi e) \<longrightarrow> (\<exists>d. buildMusicXmlFromPhrase events tempo = Inr d)"
    using document_total by blast
  have c: "divisions * of_int beatsPerBarXml = 16" by (simp add: divisions_def beatsPerBarXml_def)
  show ?thesis using a b c by blast
qed

text \<open>
  The claim C2 as stated fails: for a bar without bass events the four eighth
  rests sum to \<open>8\<close> divisions, and a 4/4 bar has \<open>16\<close>.
\<close>

theorem empty_bar_is_half_bar:
  "buildBassGroup (jsDiv 60 100) (bassChordStartsOf emptyPhrase) 1 = Inr (replicate 4 bassRest)
   \<and> sum_list (map xmlDuration (replicate 4 bassRest)) = 8
   \<and> divisions * of_int beatsPerBarXml = 16"
proof -
  have "buildBassGroup (jsDiv 60 100) (bassChordStartsOf emptyPhrase) 1
          = Inr (replicate 4 bassRest)"
    by (simp add: buildBassGroup_def bassChordStartsOf_def emptyPhrase_def)
  moreover have "sum_list (map xmlDuration (replicate 4 bassRest)) = 8"
    by (simp add: bassRest_def divisions_half sum_list_replicate)
  moreover have "divisions * of_int beatsPerBarXml = 16"
    by (simp add: divisions_def beatsPerBarXml_def)
  ultimately show ?thesis by blast
qed

lemma zero_is_random: "isRandomValue (zeroRandom i)"
  by (simp add: isRandomValue_def zeroRandom_def toDouble_def)

lemma examplePhrase_closed:
  "examplePhrase = concat (map (barAt C_MAJOR (jsDiv 60 100) 1 zeroRandom 0) [0, 1, 2, 3])"
  by (simp add: examplePhrase_def generateEvents_closed)

lemma measureStart_100:
  "measureStartOf (jsDiv 60 100) 1 = 0"
  "measureStartOf (jsDiv 60 100) 2 \<noteq> 0"
  "measureStartOf (jsDiv 60 100) 3 \<noteq> 0"
  "measureStartOf (jsDiv 60 100) 4 \<noteq> 0"
  unfolding spb_100 by (simp_all add: measureStartOf_def beatsPerBarXml_def number_eval)

lemma oneChord_starts:
  "bassChordStartsOf oneChordPhrase = oneChordPhrase"
  "trebleEventsOf oneChordPhrase = []"
  by (simp_all add: bassChordStartsOf_def trebleEventsOf_def oneChordPhrase_def)

lemma oneChord_group:
  "buildBassGroup (jsDiv 60 100) oneChordPhrase 1
     = Inr [bassNoteXml (xmlPitchOf 48) BeamBegin, bassNoteXml (xmlPitchOf 52) BeamContinue,
            bassNoteXml (xmlPitchOf 55) BeamContinue, bassNoteXml (xmlPitchOf 48) BeamEnd]"
  "buildBassGroup (jsDiv 60 100) oneChordPhrase 2 = Inr (replicate 4 bassRest)"
  "buildBassGroup (jsDiv 60 100) oneChordPhrase 3 = Inr (replicate 4 bassRest)"
  "buildBassGroup (jsDiv 60 100) oneChordPhrase 4 = Inr (replicate 4 bassRest)"
  by (simp_all add: buildBassGroup_def measureStart_100 oneChordPhrase_def Let_def
        bassPattern_def truthyAt_def bassNote_def midiToXmlPitch_nonneg beamTag_def)

lemma oneChord_document: "buildMusicXmlFromPhrase oneChordPhrase 100 = Inr oneChordDocument"
  by (simp add: buildMusicXmlFromPhrase_def oneChord_starts buildMeasure_def
        buildTrebleBeatNote_def oneChord_group oneChordDocument_def numeral_eq_Suc)

lemma oneChord_pattern:
  "filter (\<lambda>e. time e = measureStartOf (jsDiv 60 100) (int 0 + 1)) (bassChordStartsOf oneChordPhrase)
     = oneChordPhrase"
  "bassPattern (sort (map midi oneChordPhrase)) = [48, 52, 55, 48]"
  unfolding oneChord_starts
  by (simp_all add: measureStart_100 oneChordPhrase_def bassPattern_def truthyAt_def)

theorem bass_group_durations_witness:
  "buildMusicXmlFromPhrase oneChordPhrase 100 = Inr oneChordDocument
   \<and> filter (\<lambda>e. time e = measureStartOf (jsDiv 60 100) 1) (bassChordStartsOf oneChordPhrase) \<noteq> []
   \<and> bassGroup (measures oneChordDocument ! 0)
       = [bassNoteXml (xmlPitchOf 48) BeamBegin, bassNoteXml (xmlPitchOf 52) BeamContinue,
          bassNoteXml (xmlPitchOf 55) BeamContinue, bassNoteXml (xmlPitchOf 48) BeamEnd]
   \<and> sum_list (map xmlDuration (bassGroup (measures oneChordDocument ! 0))) = 8
   \<and> filter (\<lambda>e. time e = measureStartOf (jsDiv 60 100) 2) (bassChordStartsOf oneChordPhrase) = []
   \<and> bassGroup (measures oneChordDocument ! 1) = replicate 4 bassRest
   \<and> sum_list (map xmlDuration (bassGroup (measures oneChordDocument ! 1))) = 8"
proof -
  have d: "buildMusicXmlFromPhrase oneChordPhrase 100 = Inr oneChordDocument"
    by (rule oneChord_document)
  note t = bass_group_durations [of oneChordPhrase 100 oneChordDocument, THEN conjunct1,
      THEN mp, OF d, THEN conjunct2, rule_format, unfolded Let_def]
  have "(0 :: nat) < 4" by simp
  note t0 = t[OF this]
  have c0: "filter (\<lambda>e. time e = measureStartOf (jsDiv 60 100) (int 0 + 1))
              (bassChordStartsOf oneChordPhrase) \<noteq> []"
    unfolding oneChord_pattern by (simp add: oneChordPhrase_def)
  have "bassGroup (measures oneChordDocument ! 0)
       = map (\<lambda>im. bassNoteXml (xmlPitchOf (snd im))
                (beamTag (length (bassPattern (sort (map midi (filter
                    (\<lambda>e. time e = measureStartOf (jsDiv 60 100) (int 0 + 1))
                    (bassChordStartsOf oneChordPhrase)))))) (fst im)))
           (enumerate 0 (bassPattern (sort (map midi (filter
                    (\<lambda>e. time e = measureStartOf (jsDiv 60 100) (int 0 + 1))
                    (bassChordStartsOf oneChordPhrase))))))"
    using t0 c0 by blast
  then have g0: "bassGroup (measures oneChordDocument ! 0)
       = [bassNoteXml (xmlPitchOf 48) BeamBegin, bassNoteXml (xmlPitchOf 52) BeamContinue,
          bassNoteXml (xmlPitchOf 55) BeamContinue, bassNoteXml (xmlPitchOf 48) BeamEnd]"
    unfolding oneChord_pattern by (simp add: beamTag_def)
  have "sum_list (map xmlDuration (bassGroup (measures oneChordDocument ! 0)))
          = 2 * of_nat (length (bassGroup (measures oneChordDocument ! 0)))"
    using t0 by blast
  then have s0: "sum_list (map xmlDuration (bassGroup (measures oneChordDocument ! 0))) = 8"
    unfolding g0 by simp
  have f0: "filter (\<lambda>e. time e = measureStartOf (jsDiv 60 100) 1)
              (bassChordStartsOf oneChordPhrase) \<noteq> []"
    using c0 by simp
  have n1: "\<forall>e \<in> set oneChordPhrase. staff e = bass
                   \<longrightarrow> time e \<noteq> measureStartOf (jsDiv 60 100) (int 1 + 1)"
    using measureStart_100(2) by (simp add: oneChordPhrase_def)
  have "(1 :: nat) < 4" by simp
  note t1 = t[OF this]
  have c1: "filter (\<lambda>e. time e = measureStartOf (jsDiv 60 100) (int 1 + 1))
              (bassChordStartsOf oneChordPhrase) = []"
    using t1 n1 by blast
  have r1: "bassGroup (measures oneChordDocument ! 1) = replicate 4 bassRest"
    and s1: "sum_list (map xmlDuration (bassGroup (measures oneChordDocument ! 1))) = 8"
    using t1 c1 by blast+
  have f1: "filter (\<lambda>e. time e = measureStartOf (jsDiv 60 100) 2)
              (bassChordStartsOf oneChordPhrase) = []"
    using c1 by simp
  show ?thesis using d f0 g0 s0 f1 r1 s1 by blast
qed

theorem generate_counts_witness:
  "(100 :: real) \<in> set tempos
   \<and> length (filter (\<lambda>e. staff e = treble) examplePhrase) = 16
   \<and> card (time ` {e \<in> set examplePhrase. staff e = bass}) = 4
   \<and> length (filter (\<lambda>e. staff e = bass \<and> time e = jsMul 4 (jsDiv 60 100)) examplePhrase) = 3"
proof -
  have p: "(100 :: real) \<in> set tempos" by (simp add: tempos_def)
  note t = generate_counts [where tempo = 100 and mode = C_MAJOR and meter = Meter_4_4
      and diff = 1 and rand = zeroRandom and k = 0, THEN mp, OF p, unfolded Let_def,
      folded examplePhrase_def]
  have a: "length (filter (\<lambda>e. staff e = treble) examplePhrase) = 16"
    using t by simp
  have b: "card (time ` {e \<in> set examplePhrase. staff e = bass}) = 4"
    using t by (elim conjE)
  have "(1 :: nat) < 4" by simp
  then have "length (filter (\<lambda>e. staff e = bass
               \<and> time e = jsMul (of_nat (1 * beatsPerBarOf Meter_4_4)) (jsDiv 60 100)) examplePhrase)
             = 3 + (if 2 \<le> (1 :: nat) then 1 else 0) + (if 3 \<le> (1 :: nat) then 1 else 0)"
    using t by blast
  then have c: "length (filter (\<lambda>e. staff e = bass \<and> time e = jsMul 4 (jsDiv 60 100)) examplePhrase) = 3"
    by simp
  show ?thesis using p a b c by blast
qed

theorem generated_pitch_ranges_witness:
  "isRandomValue (zeroRandom 0)
   \<and> hd examplePhrase \<in> set examplePhrase \<and> staff (hd examplePhrase) = treble
   \<and> 60 \<le> midi (hd examplePhrase) \<and> midi (hd examplePhrase) \<le> 84"
proof -
  have r: "\<forall>i. isRandomValue (zeroRandom i)" using zero_is_random by blast
  have h: "hd examplePhrase \<in> set examplePhrase" "staff (hd examplePhrase) = treble"
    by (simp_all add: examplePhrase_closed barAt_def trebleAt_def)
  note t = generated_pitch_ranges [where rand = zeroRandom and mode = C_MAJOR
      and meter = Meter_4_4 and tempo = 100 and diff = 1 and k = 0, THEN conjunct1, THEN mp, OF r,
      folded examplePhrase_def]
  have "60 \<le> midi (hd examplePhrase) \<and> midi (hd examplePhrase) \<le> 84"
    using t h by blast
  then show ?thesis using h zero_is_random[of 0] by blast
qed

theorem encode_generated_phrase_witness:
  "(100 :: real) \<in> set tempos \<and> isRandomValue (zeroRandom 0)
   \<and> length (filter (\<lambda>e. staff e = treble) examplePhrase) = 16
   \<and> find (inBeatWindow (jsDiv 60 100) 2 2) (trebleEventsOf examplePhrase)
       = Some (filter (\<lambda>e. staff e = treble) examplePhrase ! 5)"
proof -
  have p: "(100 :: real) \<in> set tempos \<and> (1 :: nat) \<in> {1, 2, 3} \<and> (\<forall>i. isRandomValue (zeroRandom i))"
    using zero_is_random by (simp add: tempos_def)
  note t = encode_generated_phrase [where tempo = 100 and mode = C_MAJOR and meter = Meter_4_4
      and diff = 1 and rand = zeroRandom and k = 0, THEN conjunct1, THEN mp, OF p,
      unfolded Let_def, folded examplePhrase_def]
  have a: "length (filter (\<lambda>e. staff e = treble) examplePhrase) = 16"
    using t by (elim conjE)
  have "(1 :: nat) < 4" by simp
  then have "find (inBeatWindow (jsDiv 60 100) (int 1 + 1) (int 1 + 1)) (trebleEventsOf examplePhrase)
       = Some (filter (\<lambda>e. staff e = treble) examplePhrase ! (4 * 1 + 1))"
    using t by blast
  then have b: "find (inBeatWindow (jsDiv 60 100) 2 2) (trebleEventsOf examplePhrase)
       = Some (filter (\<lambda>e. staff e = treble) examplePhrase ! 5)"
    by simp
  show ?thesis using p a b zero_is_random[of 0] by blast
qed

text \<open>
  The claim C10 as stated fails: at tempo \<open>100\<close> the beat window of bar 2,
  beat 2 holds two treble events of the generated phrase, the events of beats
  \<open>5\<close> and \<open>6\<close> (counted from \<open>0\<close>). The window ends at the rounded sum
  \<open>3.0 + 0.6\<close> and the later event starts at the rounded product \<open>6 * 0.6\<close>,
  which is smaller.
\<close>

theorem two_events_in_one_window:
  "inBeatWindow (jsDiv 60 100) 2 2 (trebleEventsOf examplePhrase ! 5)
   \<and> inBeatWindow (jsDiv 60 100) 2 2 (trebleEventsOf examplePhrase ! 6)
   \<and> time (trebleEventsOf examplePhrase ! 5) < time (trebleEventsOf examplePhrase ! 6)"
proof -
  have g: "gridOk (jsDiv 60 100)" by (rule grid_100)
  have te: "trebleEventsOf examplePhrase = map (trebleAt (jsDiv 60 100) zeroRandom 0) [0..<16]"
    unfolding trebleEventsOf_def examplePhrase_closed trebles_closed
    by (rule trebles_sorted[OF g])
  have n5: "trebleEventsOf examplePhrase ! 5 = trebleAt (jsDiv 60 100) zeroRandom 0 5"
    and n6: "trebleEventsOf examplePhrase ! 6 = trebleAt (jsDiv 60 100) zeroRandom 0 6"
    unfolding te by simp_all
  have t: "time (trebleAt (jsDiv 60 100) zeroRandom 0 b) = beatTime (jsDiv 60 100) b" for b
    by (simp add: trebleAt_def)
  have a: "inBeatWindow (jsDiv 60 100) 2 2 (trebleAt (jsDiv 60 100) zeroRandom 0 5)"
    using window_own[OF g, of 5, OF _ t] by simp
  have "beatStartOf (jsDiv 60 100) 2 2 \<le> beatTime (jsDiv 60 100) 6
        \<and> beatTime (jsDiv 60 100) 6 < jsAdd (beatStartOf (jsDiv 60 100) 2 2) (jsDiv 60 100)"
    unfolding spb_100
    by (simp add: beatStartOf_def measureStartOf_def beatsPerBarXml_def beatTime_def number_eval)
  then have b: "inBeatWindow (jsDiv 60 100) 2 2 (trebleAt (jsDiv 60 100) zeroRandom 0 6)"
    by (simp add: inBeatWindow_def Let_def t)
  have c: "beatTime (jsDiv 60 100) 5 < beatTime (jsDiv 60 100) 6"
    using beat_strict_mono[OF g, of 5 6] by simp
  show ?thesis unfolding n5 n6 t using a b c by blast
qed

section \<open>A stop during the await of startPlayback\<close>

lemma mounted_loaded:
  "onSamplerLoad (onMounted 0 (initialComponent zeroRandom)) =
     (initialComponent zeroRandom)\<lparr>pianoSampler := True, samplerLoaded := True,
        noteEvents := examplePhrase, randomCalls := 20\<rparr>"
  by (simp add: onSamplerLoad_def onMounted_def updateActiveNotes_def generatePhrase_def
        ensureAudio_def Let_def examplePhrase_def generateEvents_closed initialComponent_def)

lemma examplePhrase_length: "length examplePhrase = 28"
  by (simp add: examplePhrase_def generateEvents_closed barAt_def buildChord_def)

lemma phraseDuration_100: "bpm s = 100 \<Longrightarrow> jsAdd (jsMul (phraseDuration s) 1000) 50 = 9650"
  by (cases "selectedMeter s")
     (simp add: phraseDuration_def phraseLengthBars_def spb_100 number_eval)

lemma enumerate_ids: "t \<in> set (enumerate n xs) \<Longrightarrow> fst t < n + length xs"
  by (auto simp: in_set_enumerate_eq)

lemma generated_head:
  "fst (generateEvents mode meter tempo diff rand k)
     = trebleAt (jsDiv 60 tempo) rand k 0
         # tl (fst (generateEvents mode meter tempo diff rand k))"
  by (simp add: generateEvents_closed barAt_def)

lemma mounted_fields:
  "samplerLoaded (onSamplerLoad (onMounted 0 (initialComponent zeroRandom)))"
  "pianoSampler (onSamplerLoad (onMounted 0 (initialComponent zeroRandom)))"
  "tracked (onSamplerLoad (onMounted 0 (initialComponent zeroRandom)))"
  "bpm (onSamplerLoad (onMounted 0 (initialComponent zeroRandom))) = 100"
  "difficulty (onSamplerLoad (onMounted 0 (initialComponent zeroRandom))) = 1"
  "selectedMode (onSamplerLoad (onMounted 0 (initialComponent zeroRandom))) = C_MAJOR"
  "selectedMeter (onSamplerLoad (onMounted 0 (initialComponent zeroRandom))) = Meter_4_4"
  "randomValues (onSamplerLoad (onMounted 0 (initialComponent zeroRandom))) = zeroRandom"
  "randomCalls (onSamplerLoad (onMounted 0 (initialComponent zeroRandom))) = 20"
  "noteEvents (onSamplerLoad (onMounted 0 (initialComponent zeroRandom))) = examplePhrase"
  "nextTimerId (onSamplerLoad (onMounted 0 (initialComponent zeroRandom))) = 1"
  "triggered (onSamplerLoad (onMounted 0 (initialComponent zeroRandom))) = []"
  "startsAwaiting (onSamplerLoad (onMounted 0 (initialComponent zeroRandom))) = 0"
  "\<not> isPlaying (onSamplerLoad (onMounted 0 (initialComponent zeroRandom)))"
  "pendingTimers (onSamplerLoad (onMounted 0 (initialComponent zeroRandom))) = []"
  "playbackTimers (onSamplerLoad (onMounted 0 (initialComponent zeroRandom))) = []"
  unfolding mounted_loaded by (simp_all add: initialComponent_def tracked_def)

lemma restarting_fields:
  "isPlaying restarting" "samplerLoaded restarting" "pianoSampler restarting"
  "startsAwaiting restarting = 1" "nextTimerId restarting = 30" "triggered restarting = []"
  "noteEvents restarting = fst (generateEvents C_MAJOR Meter_4_4 100 1 zeroRandom 20)"
proof -
  define m where "m = onSamplerLoad (onMounted 0 (initialComponent zeroRandom))"
  note mf = mounted_fields[folded m_def]
  define ns where "ns = map (\<lambda>p. \<lparr>timerId = fst p, dueAt = of_int 0 + jsMul (time (snd p)) 1000,
                     callback = NoteTrigger (snd p)\<rparr>) (enumerate 1 examplePhrase)"
  define l where "l = \<lparr>timerId = 29, dueAt = 9650, callback = LoopTrigger\<rparr>"
  define pl where "pl = startPlayback 0 m"
  have pe: "pl = m\<lparr>pianoSampler := True, phraseStart := 0, isPlaying := True,
       pendingTimers := ns @ [l], nextTimerId := 30,
       playbackTimers := map fst (enumerate 1 examplePhrase) @ [29]\<rparr>"
    unfolding pl_def startPlayback_ready[OF mf(1) mf(3)] phraseDuration_100[OF mf(4)] mf
      examplePhrase_length ns_def l_def
    by simp
  have d: "\<forall>t \<in> set ns. timerId t \<noteq> timerId l"
    unfolding ns_def l_def
    using enumerate_ids[of _ 1 examplePhrase] by (fastforce simp: examplePhrase_length)
  have f: "fireTimer (timerId l) 9700 pl
             = startPlaybackCall (generatePhrase (pl\<lparr>pendingTimers := ns\<rparr>))"
    by (rule fireTimer_loop[OF _ d]) (simp_all add: pe, simp_all add: l_def)
  have "restarting = fireTimer 29 9700 pl"
    by (simp add: restarting_def reached_def run_def startPlayback_call_resume pl_def m_def)
  then have r: "restarting = startPlaybackCall (generatePhrase (pl\<lparr>pendingTimers := ns\<rparr>))"
    using f by (simp add: l_def)
  show "isPlaying restarting" "samplerLoaded restarting" "pianoSampler restarting"
    "startsAwaiting restarting = 1" "nextTimerId restarting = 30" "triggered restarting = []"
    "noteEvents restarting = fst (generateEvents C_MAJOR Meter_4_4 100 1 zeroRandom 20)"
    unfolding r by (simp_all add: startPlaybackCall_def generatePhrase_def Let_def pe mf)
qed

lemma first_note:
  "time (trebleAt (jsDiv 60 100) zeroRandom k 0) = 0"
  "midi (trebleAt (jsDiv 60 100) zeroRandom k 0) = 60"
  "duration (trebleAt (jsDiv 60 100) zeroRandom k 0) = jsMul (jsDiv 60 100) (toDouble (9 / 10))"
  by (simp_all add: trebleAt_def beatTime_def zeroRandom_def randomInt_def number_eval)

text \<open>
  C5. The claim fails on the code. \<open>stopPlayback\<close> clears the timers and sets
  \<open>isPlaying\<close> to false, and both timer callbacks check \<open>isPlaying\<close>; but a
  call of \<open>startPlayback\<close> that is suspended at \<^verbatim>\<open>await ensureAudio()\<close> is not
  cancelled and does not look at what happened while it waited. On the
  component \<open>restarting\<close>, whose loop timer has just restarted playback, the
  stop leaves the component idle with no timer pending; then the suspended call
  resumes, sets \<open>isPlaying\<close> and schedules the whole phrase, and its first
  timer sends a note to the backend. The same happens when \<open>stopPlayback\<close>
  is called (by \<open>onBeforeUnmount\<close>) during the await of the first start.
  When no call is suspended the stop is final (\<open>stopPlayback_final\<close>).
\<close>

theorem stop_during_await_is_lost:
  "isPlaying restarting \<and> startsAwaiting restarting = 1
   \<and> \<not> isPlaying (run [ClickStop] restarting)
   \<and> pendingTimers (run [ClickStop] restarting) = []
   \<and> triggered (run [ClickStop] restarting) = []
   \<and> isPlaying (run [ClickStop, AudioReady 9800] restarting)
   \<and> pendingTimers (run [ClickStop, AudioReady 9800] restarting) \<noteq> []
   \<and> triggered (run [ClickStop, AudioReady 9800, TimerFires 30 9800] restarting)
       = [(60, jsMul (jsDiv 60 100) (toDouble (9 / 10)))]
   \<and> triggered (reached zeroRandom 0 [SamplerLoads, ClickStart, ClickStop, AudioReady 0,
         TimerFires 1 0])
       = [(60, jsMul (jsDiv 60 100) (toDouble (9 / 10)))]"
proof -
  note rf = restarting_fields
  have c: "consistent restarting" unfolding restarting_def by (rule consistent_reached)
  have st: "stopPlayback restarting
              = restarting\<lparr>isPlaying := False, pendingTimers := [], playbackTimers := []\<rparr>"
    using c by (rule stopPlayback_consistent)
  have n: "noteEvents restarting = trebleAt (jsDiv 60 100) zeroRandom 20 0
             # tl (fst (generateEvents C_MAJOR Meter_4_4 100 1 zeroRandom 20))"
    unfolding rf(7) by (rule generated_head)
  have due: "of_int 9800 + jsMul (time (trebleAt (jsDiv 60 100) zeroRandom 20 0)) 1000
               \<le> of_int 9800"
    by (simp add: first_note jsMul_def toDouble_def)
  have a: "startsAwaiting restarting \<noteq> 0" using rf(4) by simp
  note r = resume_after_stop[OF c rf(2) a n due]
  have 1: "\<not> isPlaying (run [ClickStop] restarting)"
    "pendingTimers (run [ClickStop] restarting) = []"
    "triggered (run [ClickStop] restarting) = []"
    by (simp_all add: run_def st rf)
  have 2: "isPlaying (run [ClickStop, AudioReady 9800] restarting)"
    "pendingTimers (run [ClickStop, AudioReady 9800] restarting) \<noteq> []"
    using r(1,2) by (simp_all add: run_def)
  have 3: "triggered (run [ClickStop, AudioReady 9800, TimerFires 30 9800] restarting)
       = [(60, jsMul (jsDiv 60 100) (toDouble (9 / 10)))]"
    using r(3) by (simp add: run_def rf first_note)
  define m where "m = onSamplerLoad (onMounted 0 (initialComponent zeroRandom))"
  note mf = mounted_fields[folded m_def]
  have cm: "consistent (startPlaybackCall m)"
    using consistent_reached[of zeroRandom 0 "[SamplerLoads, ClickStart]"]
    by (simp add: reached_def run_def m_def)
  have nm: "noteEvents (startPlaybackCall m) = trebleAt (jsDiv 60 100) zeroRandom 0 0
              # tl (fst (generateEvents C_MAJOR Meter_4_4 100 1 zeroRandom 0))"
    using generated_head[of C_MAJOR Meter_4_4 100 1 zeroRandom 0]
    by (simp add: startPlaybackCall_def mf examplePhrase_def)
  have duem: "of_int 0 + jsMul (time (trebleAt (jsDiv 60 100) zeroRandom 0 0)) 1000 \<le> of_int 0"
    by (simp add: first_note jsMul_def toDouble_def)
  have lm: "samplerLoaded (startPlaybackCall m)" and am: "startsAwaiting (startPlaybackCall m) \<noteq> 0"
    by (simp_all add: startPlaybackCall_def mf)
  have "triggered (fireTimer (nextTimerId (startPlaybackCall m)) 0
           (startPlaybackResume 0 (stopPlayback (startPlaybackCall m))))
         = triggered (startPlaybackCall m) @ [(60, jsMul (jsDiv 60 100) (toDouble (9 / 10)))]"
    using resume_after_stop(3)[OF cm lm am nm duem] by (simp add: first_note)
  then have 4: "triggered (reached zeroRandom 0 [SamplerLoads, ClickStart, ClickStop, AudioReady 0,
         TimerFires 1 0])
       = [(60, jsMul (jsDiv 60 100) (toDouble (9 / 10)))]"
    by (simp add: reached_def run_def m_def[symmetric] startPlaybackCall_def mf)
  show ?thesis using rf(1) rf(4) 1 2 3 4 by blast
qed

end
